theory Spec2Isabelle
  imports Main
begin

section \<open>Data model of the asset graph\<close>

text \<open>
  The payload types of \<^verbatim>\<open>./types\<close> as far as \<^verbatim>\<open>AssetGraph.js\<close> reads them.
  A JavaScript \<^verbatim>\<open>Map\<close> is an association list in insertion order, a \<^verbatim>\<open>Set\<close> that is
  iterated is a list in insertion order (see \<open>set_add\<close>), a \<^verbatim>\<open>Set\<close> that is only
  queried with \<^verbatim>\<open>has\<close> is a HOL set, and a nullable field is an option.
\<close>

record symbol =
  local_name :: string

record environment =
  isLibrary :: bool

record target =
  target_name :: string
  target_env :: environment

record entry =
  filePath :: string

record dependency =
  dep_id :: string
  moduleSpecifier :: string
  dep_target :: "target option"
  dep_symbols :: "(string \<times> symbol) list"
  weakSymbols :: "string set"

record assetGroup =
  group_filePath :: string
  sideEffects :: "bool option"

record asset =
  asset_id :: string
  uniqueKey :: "string option"
  asset_symbols :: "(string \<times> symbol) list option"
  dependencies :: "(string \<times> dependency) list"
  outputHash :: "string option"

datatype node_value =
    RootValue
  | EntrySpecifierValue string
  | EntryFileValue entry
  | DependencyValue dependency
  | AssetGroupValue assetGroup
  | AssetValue asset

datatype node_type =
  T_root | T_entry_specifier | T_entry_file | T_dependency | T_asset_group | T_asset

text \<open>
  A node object. \<^verbatim>\<open>type\<close> and \<^verbatim>\<open>value\<close> form a tagged union in the Flow types, so the
  tag is read off the payload (\<open>ntype\<close>). The other fields are the ones the code
  assigns at run time; a field that was never assigned or was deleted is \<open>None\<close>.
\<close>

record node =
  node_id :: string
  node_value :: node_value
  usedSymbols :: "string list"
  correspondingRequest :: "string option"
  complete :: "bool option"
  hasDeferred :: "bool option"
  deferred :: "bool option"

fun ntype :: "node \<Rightarrow> node_type" where
  "ntype n =
     (case node_value n of
        RootValue \<Rightarrow> T_root
      | EntrySpecifierValue _ \<Rightarrow> T_entry_specifier
      | EntryFileValue _ \<Rightarrow> T_entry_file
      | DependencyValue _ \<Rightarrow> T_dependency
      | AssetGroupValue _ \<Rightarrow> T_asset_group
      | AssetValue _ \<Rightarrow> T_asset)"

text \<open>\<^verbatim>\<open>Set.prototype.add\<close>: insertion order is kept, a present element is not moved.\<close>

definition set_add :: "'a \<Rightarrow> 'a list \<Rightarrow> 'a list" where
  "set_add x xs = (if x \<in> set xs then xs else xs @ [x])"

text \<open>
  Node objects live in a store and are named by references, since the code mutates them
  in place and tells a node of the graph from a fresh object with the same id. The graph
  maps an id to the reference of its node; \<open>edges\<close> lists the (from, to) id pairs in
  insertion order. \<open>observed\<close> is the trace of the \<^verbatim>\<open>onNodeRemoved\<close> calls.
\<close>

type_synonym ref = nat

record asset_graph =
  heap :: "ref \<Rightarrow> node"
  nextRef :: ref
  nodes :: "string \<rightharpoonup> ref"
  edges :: "(string \<times> string) list"
  rootNodeId :: "string option"
  hash :: "string option"
  onNodeRemoved :: bool
  observed :: "ref list"

datatype error = NullThrows | InvariantFailed | NoStartNode | IllTyped

section \<open>Traversal engine\<close>

text \<open>
  A visitor gets the node, the context of its parent and the current state; it returns
  the new state, the context it returns (\<open>None\<close> for \<^verbatim>\<open>undefined\<close>), and whether it
  called \<^verbatim>\<open>actions.skipChildren()\<close> and \<^verbatim>\<open>actions.stop()\<close>.
\<close>

type_synonym ('n, 'c, 's) visitor = "'n \<Rightarrow> 'c option \<Rightarrow> 's \<Rightarrow> 's \<times> 'c option \<times> bool \<times> bool"

definition adjacent :: "('n \<Rightarrow> 'k) \<Rightarrow> ('k \<times> 'n) list \<Rightarrow> 'n \<Rightarrow> 'n list" where
  "adjacent key E n = map snd (filter (\<lambda>e. fst e = key n) E)"

text \<open>
  Modelled from the spec: \<^verbatim>\<open>Graph.js\<close> (the generic graph class that \<^verbatim>\<open>AssetGraph\<close>
  extends) is not among the sources. Section 4.2 of the specification: a pre-order
  depth-first walk over the edges of one direction, each node visited once by a
  visited-set guard, a visitor that may prune the subtree below the current node or
  stop the traversal, and a context value handed from a node's visit to its children's.
  The walk keeps the pending (node, context) pairs on a stack; \<open>V\<close> lists the visited
  nodes in visiting order.
\<close>

function dfs :: "('n \<Rightarrow> 'k) \<Rightarrow> ('k \<times> 'n) list \<Rightarrow> ('n, 'c, 's) visitor \<Rightarrow>
    ('n \<times> 'c option) list \<Rightarrow> 'n list \<Rightarrow> 's \<Rightarrow> 'n list \<times> 's" where
  "dfs key E visit [] V s = (V, s)"
| "dfs key E visit ((n, ctx) # stack) V s =
     (if n \<in> set V then dfs key E visit stack V s
      else
        (case visit n ctx s of
           (s', newContext, skipped, stopped) \<Rightarrow>
             if stopped then (V @ [n], s')
             else if skipped then dfs key E visit stack (V @ [n]) s'
             else
               dfs key E visit
                 (map (\<lambda>c. (c, case newContext of None \<Rightarrow> ctx | Some x \<Rightarrow> Some x))
                    (adjacent key E n) @ stack)
                 (V @ [n]) s'))"
  by pat_completeness auto

lemma adjacent_subset: "set (adjacent key E n) \<subseteq> snd ` set E"
  by (auto simp: adjacent_def)

lemma dfs_measure_pop:
  "card ((snd ` set E \<union> fst ` set stack) - set V)
     \<le> card ((snd ` set E \<union> fst ` set ((n, ctx) # stack)) - set V)"
  by (intro card_mono) auto

lemma dfs_measure_visit:
  assumes "n \<notin> set V" and "fst ` set st \<subseteq> snd ` set E \<union> fst ` set stack"
  shows "card ((snd ` set E \<union> fst ` set st) - set (V @ [n]))
     < card ((snd ` set E \<union> fst ` set ((n, ctx) # stack)) - set V)"
proof -
  have "(snd ` set E \<union> fst ` set st) - set (V @ [n])
      \<subset> (snd ` set E \<union> fst ` set ((n, ctx) # stack)) - set V"
    using assms by auto
  then show ?thesis
    by (intro psubset_card_mono) auto
qed

lemma dfs_push_subset:
  "fst ` set (map (\<lambda>c. (c, f c)) (adjacent key E n) @ stack) \<subseteq> snd ` set E \<union> fst ` set stack"
  using adjacent_subset[of key E n] by (auto simp: image_iff)

lemma dfs_total: "All dfs_dom"
proof (relation "measures
    [\<lambda>(key, E, visit, stack, V, s). card ((snd ` set E \<union> fst ` set stack) - set V),
     \<lambda>(key, E, visit, stack, V, s). length stack]", goal_cases)
  case 1
  show ?case by simp
next
  case (2 key E visit n ctx stack V s)
  show ?case
    using dfs_measure_pop[of E stack V n ctx] by (simp del: set_simps) arith
next
  case (3 key E visit n ctx stack V s x y xa ya xb yb)
  have "fst ` set stack \<subseteq> snd ` set E \<union> fst ` set stack" by blast
  from dfs_measure_visit[OF 3(1) this, of ctx] show ?case
    by (simp del: set_simps set_append)
next
  case (4 key E visit n ctx stack V s x y xa ya xb yb)
  have "fst ` set (map (\<lambda>c. (c, case xa of None \<Rightarrow> ctx | Some x \<Rightarrow> Some x))
          (adjacent key E n) @ stack)
      \<subseteq> snd ` set E \<union> fst ` set stack"
    by (rule dfs_push_subset)
  from dfs_measure_visit[OF 4(1) this, of ctx] show ?case
    by (simp del: set_simps set_append map_append)
qed

termination dfs
  by (rule dfs_total)

declare dfs.simps [simp del]

text \<open>The visitor that does nothing: the walk then only lists the nodes it visits.\<close>

definition plain_visit :: "('n, unit, unit) visitor" where
  "plain_visit n ctx s = (s, None, False, False)"

text \<open>
  Modelled from the spec: the adjacency queries of \<^verbatim>\<open>Graph.js\<close>. The nodes at the far
  end of a node's outgoing (incoming) edges, in edge order, found by the node's id.
\<close>

definition node_key :: "asset_graph \<Rightarrow> ref \<Rightarrow> string" where
  "node_key g r = node_id (heap g r)"

definition outbound :: "asset_graph \<Rightarrow> (string \<times> ref) list" where
  "outbound g =
     concat (map (\<lambda>(f, t). case nodes g t of None \<Rightarrow> [] | Some r \<Rightarrow> [(f, r)]) (edges g))"

definition inbound :: "asset_graph \<Rightarrow> (string \<times> ref) list" where
  "inbound g =
     concat (map (\<lambda>(f, t). case nodes g f of None \<Rightarrow> [] | Some r \<Rightarrow> [(t, r)]) (edges g))"

definition getNodesConnectedFrom :: "asset_graph \<Rightarrow> ref \<Rightarrow> ref list" where
  "getNodesConnectedFrom g n = adjacent (node_key g) (outbound g) n"

definition getNodesConnectedTo :: "asset_graph \<Rightarrow> ref \<Rightarrow> ref list" where
  "getNodesConnectedTo g n = adjacent (node_key g) (inbound g) n"

text \<open>
  Modelled from the spec: \<^verbatim>\<open>Graph.traverseAncestors\<close>, the walk of section 4.2 over the
  incoming edges, from the given node. The visitor's state is threaded through the
  walk; the edges are those of the graph the walk started on.
\<close>

definition traverseAncestors ::
    "asset_graph \<Rightarrow> ref \<Rightarrow> (ref, 'c, 's) visitor \<Rightarrow> 's \<Rightarrow> ref list \<times> 's" where
  "traverseAncestors g startNode visit s =
     dfs (node_key g) (inbound g) visit [(startNode, None)] [] s"

section \<open>Deferral propagator\<close>

definition set_hasDeferred :: "ref \<Rightarrow> bool option \<Rightarrow> asset_graph \<Rightarrow> asset_graph" where
  "set_hasDeferred r v g = g\<lparr>heap := (heap g)(r := (heap g r)\<lparr>hasDeferred := v\<rparr>)\<rparr>"

definition set_deferred :: "ref \<Rightarrow> bool option \<Rightarrow> asset_graph \<Rightarrow> asset_graph" where
  "set_deferred r v g = g\<lparr>heap := (heap g)(r := (heap g r)\<lparr>deferred := v\<rparr>)\<rparr>"

text \<open>\<^verbatim>\<open>shouldDeferDependency\<close>, lines 262 to 264.\<close>

definition shouldDeferDependency :: "node \<Rightarrow> bool option \<Rightarrow> bool" where
  "shouldDeferDependency dependency sideEffects' \<longleftrightarrow>
     sideEffects' = Some False \<and> length (usedSymbols dependency) = 0"

text \<open>The visitor of \<^verbatim>\<open>markParentsWithHasDeferred\<close>, lines 224 to 233.\<close>

definition mark_visit :: "ref \<Rightarrow> (ref, bool, asset_graph) visitor" where
  "mark_visit node n ctx s =
     (if ntype (heap s n) = T_asset then (set_hasDeferred n (Some True) s, None, False, False)
      else if ntype (heap s n) = T_asset_group then
        (set_hasDeferred n (Some True) s, None, True, False)
      else if node \<noteq> n then (s, None, True, False)
      else (s, None, False, False))"

definition markParentsWithHasDeferred :: "asset_graph \<Rightarrow> ref \<Rightarrow> asset_graph" where
  "markParentsWithHasDeferred g node = snd (traverseAncestors g node (mark_visit node) g)"

text \<open>
  The visitor of \<^verbatim>\<open>unmarkParentsWithHasDeferred\<close>, lines 237 to 254. The context is the
  \<^verbatim>\<open>hasDeferred\<close> field of the object an Asset's visit returns.
\<close>

definition unmark_visit :: "ref \<Rightarrow> (ref, bool, asset_graph) visitor" where
  "unmark_visit node n ctx s =
     (if ntype (heap s n) = T_asset then
        (let hasDeferred' =
               list_ex (\<lambda>c. case hasDeferred (heap s c) of None \<Rightarrow> False | Some b \<Rightarrow> b)
                 (getNodesConnectedFrom s n)
         in (if \<not> hasDeferred' then set_hasDeferred n None s else s,
             Some hasDeferred', False, False))
      else if ntype (heap s n) = T_asset_group then
        (if ctx \<noteq> Some True then set_hasDeferred n None s else s, None, True, False)
      else if node \<noteq> n then (s, None, True, False)
      else (s, None, False, False))"

definition unmarkParentsWithHasDeferred :: "asset_graph \<Rightarrow> ref \<Rightarrow> asset_graph" where
  "unmarkParentsWithHasDeferred g node = snd (traverseAncestors g node (unmark_visit node) g)"

text \<open>
  \<^verbatim>\<open>shouldVisitChild\<close>, lines 198 to 221: the answer and the graph after the call.
  \<^verbatim>\<open>childNode.value.sideEffects\<close> is read once the child is known to be an asset group.
\<close>

definition shouldVisitChild :: "asset_graph \<Rightarrow> ref \<Rightarrow> ref \<Rightarrow> bool \<times> asset_graph" where
  "shouldVisitChild g node childNode =
     (if ntype (heap g node) \<noteq> T_dependency \<or> ntype (heap g childNode) \<noteq> T_asset_group
         \<or> deferred (heap g childNode) = Some False
      then (True, g)
      else
        (let sideEffects' =
               (case node_value (heap g childNode) of
                  AssetGroupValue ag \<Rightarrow> sideEffects ag | _ \<Rightarrow> None);
             previouslyDeferred = deferred (heap g childNode);
             defer = shouldDeferDependency (heap g node) sideEffects';
             g1 = set_hasDeferred node (Some defer) g;
             g2 = set_deferred childNode (Some defer) g1;
             g3 = (if previouslyDeferred \<noteq> Some True \<and> defer
                   then markParentsWithHasDeferred g2 node
                   else if previouslyDeferred = Some True \<and> \<not> defer
                   then unmarkParentsWithHasDeferred g2 node
                   else g2)
         in (\<not> defer, g3)))"

text \<open>A sequence of \<^verbatim>\<open>shouldVisitChild\<close> calls, each on the graph the one before left.\<close>

fun shouldVisitChild_calls :: "asset_graph \<Rightarrow> (ref \<times> ref) list \<Rightarrow> asset_graph" where
  "shouldVisitChild_calls g [] = g"
| "shouldVisitChild_calls g ((node, childNode) # calls) =
     shouldVisitChild_calls (snd (shouldVisitChild g node childNode)) calls"

section \<open>What the ancestor walks leave alone\<close>

lemma dfs_invariant:
  "(\<And>n ctx s. P s \<Longrightarrow> P (fst (visit n ctx s))) \<Longrightarrow> P s \<Longrightarrow>
   P (snd (dfs key E visit stack V s))"
proof (induction key E visit stack V s rule: dfs.induct)
  case (1 key E visit V s)
  then show ?case by (simp add: dfs.simps)
next
  case (2 key E visit n ctx stack V s)
  show ?case
  proof (cases "n \<in> set V")
    case True
    then show ?thesis using 2 by (simp add: dfs.simps)
  next
    case False
    obtain s' c sk st where v: "visit n ctx s = (s', c, sk, st)"
      by (cases "visit n ctx s") auto
    have P': "P s'" using "2.prems"(1)[OF "2.prems"(2), of n ctx] v by simp
    show ?thesis
      using False v P' "2.IH"(2)[OF False v[symmetric] refl refl _ _ "2.prems"(1) P']
        "2.IH"(3)[OF False v[symmetric] refl refl _ _ "2.prems"(1) P']
      by (simp add: dfs.simps)
  qed
qed

text \<open>
  \<open>flags_only g s\<close>: \<open>s\<close> is \<open>g\<close> but for the \<^verbatim>\<open>hasDeferred\<close> fields of Asset and
  AssetGroup nodes.
\<close>

definition flags_only :: "asset_graph \<Rightarrow> asset_graph \<Rightarrow> bool" where
  "flags_only g s \<longleftrightarrow>
     s\<lparr>heap := heap g\<rparr> = g \<and>
     (\<forall>r. (heap s r)\<lparr>hasDeferred := hasDeferred (heap g r)\<rparr> = heap g r) \<and>
     (\<forall>r. ntype (heap g r) \<noteq> T_asset \<and> ntype (heap g r) \<noteq> T_asset_group \<longrightarrow>
          heap s r = heap g r)"

lemma flags_only_refl: "flags_only g g"
  by (simp add: flags_only_def)

lemma flags_only_set:
  assumes "flags_only g s" and "ntype (heap s n) = T_asset \<or> ntype (heap s n) = T_asset_group"
  shows "flags_only g (set_hasDeferred n v s)"
proof -
  have eq: "\<And>r. (heap s r)\<lparr>hasDeferred := hasDeferred (heap g r)\<rparr> = heap g r"
    using assms(1) by (simp add: flags_only_def)
  have ty: "\<And>r. ntype (heap s r) = ntype (heap g r)"
  proof -
    fix r
    have "node_value ((heap s r)\<lparr>hasDeferred := hasDeferred (heap g r)\<rparr>) = node_value (heap g r)"
      by (simp only: eq)
    then show "ntype (heap s r) = ntype (heap g r)" by simp
  qed
  show ?thesis
    using assms eq ty by (auto simp: flags_only_def set_hasDeferred_def)
qed


lemma flags_only_ntype: "flags_only g s \<Longrightarrow> ntype (heap s r) = ntype (heap g r)"
proof -
  assume "flags_only g s"
  then have "(heap s r)\<lparr>hasDeferred := hasDeferred (heap g r)\<rparr> = heap g r"
    by (simp add: flags_only_def)
  then have "node_value ((heap s r)\<lparr>hasDeferred := hasDeferred (heap g r)\<rparr>) = node_value (heap g r)"
    by (simp only:)
  then show ?thesis by simp
qed

lemma flags_only_deferred: "flags_only g s \<Longrightarrow> deferred (heap s r) = deferred (heap g r)"
proof -
  assume "flags_only g s"
  then have "(heap s r)\<lparr>hasDeferred := hasDeferred (heap g r)\<rparr> = heap g r"
    by (simp add: flags_only_def)
  then have "deferred ((heap s r)\<lparr>hasDeferred := hasDeferred (heap g r)\<rparr>) = deferred (heap g r)"
    by (simp only:)
  then show ?thesis by simp
qed

lemma flags_only_other:
  "flags_only g s \<Longrightarrow> ntype (heap g r) \<noteq> T_asset \<Longrightarrow> ntype (heap g r) \<noteq> T_asset_group \<Longrightarrow>
   heap s r = heap g r"
  by (simp add: flags_only_def)

lemma mark_visit_flags_only: "flags_only g s \<Longrightarrow> flags_only g (fst (mark_visit node n ctx s))"
  by (simp add: mark_visit_def flags_only_set)

lemma unmark_visit_flags_only: "flags_only g s \<Longrightarrow> flags_only g (fst (unmark_visit node n ctx s))"
  by (simp add: unmark_visit_def flags_only_set Let_def)

lemma markParents_flags_only: "flags_only g (markParentsWithHasDeferred g node)"
  unfolding markParentsWithHasDeferred_def traverseAncestors_def
  by (rule dfs_invariant[where P = "flags_only g"]) (simp_all add: mark_visit_flags_only flags_only_refl)

lemma unmarkParents_flags_only: "flags_only g (unmarkParentsWithHasDeferred g node)"
  unfolding unmarkParentsWithHasDeferred_def traverseAncestors_def
  by (rule dfs_invariant[where P = "flags_only g"]) (simp_all add: unmark_visit_flags_only flags_only_refl)

lemma shouldVisitChild_deferred_other:
  "childNode \<noteq> r \<Longrightarrow> deferred (heap (snd (shouldVisitChild g node childNode)) r) = deferred (heap g r)"
  by (simp add: shouldVisitChild_def Let_def flags_only_deferred[OF markParents_flags_only]
      flags_only_deferred[OF unmarkParents_flags_only] set_deferred_def set_hasDeferred_def)

lemma shouldVisitChild_false_kept:
  "deferred (heap g r) = Some False \<Longrightarrow>
   deferred (heap (snd (shouldVisitChild g node childNode)) r) = Some False"
proof (cases "childNode = r")
  case True
  assume "deferred (heap g r) = Some False"
  with True show ?thesis by (simp add: shouldVisitChild_def)
next
  case False
  assume "deferred (heap g r) = Some False"
  with False show ?thesis by (simp add: shouldVisitChild_deferred_other)
qed

lemma shouldVisitChild_ntype:
  "ntype (heap (snd (shouldVisitChild g node childNode)) r) = ntype (heap g r)"
  by (simp add: shouldVisitChild_def Let_def flags_only_ntype[OF markParents_flags_only]
      flags_only_ntype[OF unmarkParents_flags_only] set_deferred_def set_hasDeferred_def
      del: ntype.simps) (simp)

lemma calls_false_kept:
  "deferred (heap g r) = Some False \<Longrightarrow> deferred (heap (shouldVisitChild_calls g calls) r) = Some False"
  by (induction g calls rule: shouldVisitChild_calls.induct) (simp_all add: shouldVisitChild_false_kept)

lemma calls_ntype: "ntype (heap (shouldVisitChild_calls g calls) r) = ntype (heap g r)"
  by (induction g calls rule: shouldVisitChild_calls.induct)
     (simp_all add: shouldVisitChild_ntype del: ntype.simps)

section \<open>What the ancestor walks reach\<close>

lemma dfs_inv_rule:
  "I stack V s \<Longrightarrow>
   (\<And>n ctx stack V s. I ((n, ctx) # stack) V s \<Longrightarrow> n \<in> set V \<Longrightarrow> I stack V s) \<Longrightarrow>
   (\<And>n ctx stack V s s' c sk st.
       I ((n, ctx) # stack) V s \<Longrightarrow> n \<notin> set V \<Longrightarrow> visit n ctx s = (s', c, sk, st) \<Longrightarrow>
       (st \<longrightarrow> Q (V @ [n]) s') \<and>
       (\<not> st \<and> sk \<longrightarrow> I stack (V @ [n]) s') \<and>
       (\<not> st \<and> \<not> sk \<longrightarrow>
          I (map (\<lambda>x. (x, case c of None \<Rightarrow> ctx | Some y \<Rightarrow> Some y)) (adjacent key E n) @ stack)
            (V @ [n]) s')) \<Longrightarrow>
   (\<And>V s. I [] V s \<Longrightarrow> Q V s) \<Longrightarrow>
   Q (fst (dfs key E visit stack V s)) (snd (dfs key E visit stack V s))"
proof (induction key E visit stack V s rule: dfs.induct)
  case (1 key E visit V s)
  then show ?case by (simp add: dfs.simps)
next
  case (2 key E visit n ctx stack V s)
  note pop = "2.prems"(2) and vis = "2.prems"(3) and fin = "2.prems"(4)
  show ?case
  proof (cases "n \<in> set V")
    case True
    have "I stack V s" using pop[OF "2.prems"(1) True] .
    from "2.IH"(1)[OF True this pop vis fin] True show ?thesis
      by (simp add: dfs.simps)
  next
    case False
    obtain s' c sk st where v: "visit n ctx s = (s', c, sk, st)"
      by (cases "visit n ctx s") auto
    note step = vis[OF "2.prems"(1) False v]
    show ?thesis
    proof (cases st)
      case True
      then show ?thesis using False v step by (simp add: dfs.simps)
    next
      case nst: False
      show ?thesis
      proof (cases sk)
        case True
        have "I stack (V @ [n]) s'" using step nst True by simp
        from "2.IH"(2)[OF False v[symmetric] refl refl nst True this pop vis fin]
        show ?thesis using False v nst True by (simp add: dfs.simps)
      next
        case nsk: False
        have "I (map (\<lambda>x. (x, case c of None \<Rightarrow> ctx | Some y \<Rightarrow> Some y)) (adjacent key E n) @ stack)
            (V @ [n]) s'" using step nst nsk by simp
        from "2.IH"(3)[OF False v[symmetric] refl refl nst nsk this pop vis fin]
        show ?thesis using False v nst nsk by (simp add: dfs.simps)
      qed
    qed
  qed
qed


text \<open>
  The nodes an ancestor walk of the deferral propagator reaches from \<open>node\<close>: the
  parents of \<open>node\<close> and, through Asset nodes only, their parents in turn. Both visitors
  call \<^verbatim>\<open>skipChildren\<close> on an AssetGroup and on any other node that is not the start.
\<close>

inductive_set mark_reach :: "asset_graph \<Rightarrow> ref \<Rightarrow> ref set" for g :: asset_graph and node :: ref where
  parent: "p \<in> set (getNodesConnectedTo g node) \<Longrightarrow> p \<in> mark_reach g node"
| climb: "a \<in> mark_reach g node \<Longrightarrow> ntype (heap g a) = T_asset \<Longrightarrow>
          p \<in> set (getNodesConnectedTo g a) \<Longrightarrow> p \<in> mark_reach g node"

text \<open>The invariants of the two walks, over the pending stack and the visited list.\<close>

definition mark_inv :: "asset_graph \<Rightarrow> ref \<Rightarrow> (ref \<times> bool option) list \<Rightarrow> ref list \<Rightarrow> asset_graph \<Rightarrow> bool" where
  "mark_inv g node stack V s \<longleftrightarrow>
     flags_only g s \<and>
     (\<forall>v\<in>set V. ntype (heap g v) = T_asset \<or> ntype (heap g v) = T_asset_group \<longrightarrow>
        hasDeferred (heap s v) = Some True) \<and>
     (\<forall>v\<in>set V. v = node \<or> ntype (heap g v) = T_asset \<longrightarrow>
        set (getNodesConnectedTo g v) \<subseteq> set V \<union> fst ` set stack) \<and>
     node \<in> set V \<union> fst ` set stack"

lemma set_hasDeferred_heap:
  "heap (set_hasDeferred n v s) r = (if r = n then (heap s n)\<lparr>hasDeferred := v\<rparr> else heap s r)"
  by (simp add: set_hasDeferred_def)

lemma mark_inv_pop: "mark_inv g node ((n, ctx) # stack) V s \<Longrightarrow> n \<in> set V \<Longrightarrow> mark_inv g node stack V s"
  unfolding mark_inv_def by auto

lemma mark_inv_visit:
  assumes inv: "mark_inv g node ((n, ctx) # stack) V s" and nV: "n \<notin> set V"
    and v: "mark_visit node n ctx s = (s', c, sk, st)"
    and D: "ntype (heap g node) = T_dependency"
  shows "\<not> st \<and> (sk \<longrightarrow> mark_inv g node stack (V @ [n]) s') \<and>
     (\<not> sk \<longrightarrow> mark_inv g node
        (map (\<lambda>x. (x, case c of None \<Rightarrow> ctx | Some y \<Rightarrow> Some y)) (adjacent (node_key g) (inbound g) n) @ stack)
        (V @ [n]) s')"
proof -
  have fo: "flags_only g s" using inv by (simp add: mark_inv_def)
  have ty: "ntype (heap s n) = ntype (heap g n)" by (rule flags_only_ntype[OF fo])
  have fo': "flags_only g s'"
    using mark_visit_flags_only[OF fo, of node n ctx] v by simp
  have adj: "adjacent (node_key g) (inbound g) n = getNodesConnectedTo g n"
    by (simp add: getNodesConnectedTo_def)
  consider (asset) "ntype (heap g n) = T_asset"
    | (group) "ntype (heap g n) = T_asset_group"
    | (start) "ntype (heap g n) \<noteq> T_asset" "ntype (heap g n) \<noteq> T_asset_group" "n = node"
    | (other) "ntype (heap g n) \<noteq> T_asset" "ntype (heap g n) \<noteq> T_asset_group" "n \<noteq> node"
    by blast
  then show ?thesis
  proof cases
    case asset
    then have r: "s' = set_hasDeferred n (Some True) s" "\<not> sk" "\<not> st"
      using v ty by (simp_all add: mark_visit_def del: ntype.simps)
    show ?thesis
      using inv nV fo' asset r(2,3) unfolding mark_inv_def r(1) adj
      by (auto simp: set_hasDeferred_heap image_Un image_image simp del: ntype.simps)
  next
    case group
    then have r: "s' = set_hasDeferred n (Some True) s" "sk" "\<not> st"
      using v ty by (simp_all add: mark_visit_def del: ntype.simps)
    have "n \<noteq> node" using group D by auto
    then show ?thesis
      using inv nV fo' group r(2,3) unfolding mark_inv_def r(1) adj
      by (auto simp: set_hasDeferred_heap simp del: ntype.simps)
  next
    case start
    then have r: "s' = s" "\<not> sk" "\<not> st"
      using v ty by (simp_all add: mark_visit_def del: ntype.simps)
    show ?thesis
      using inv nV fo' start r(2,3) unfolding mark_inv_def r(1) adj
      by (auto simp: image_Un image_image simp del: ntype.simps)
  next
    case other
    then have r: "s' = s" "sk" "\<not> st"
      using v ty by (simp_all add: mark_visit_def del: ntype.simps)
    show ?thesis
      using inv nV fo' other r(2,3) unfolding mark_inv_def r(1) adj
      by (auto simp del: ntype.simps)
  qed
qed

lemma mark_inv_final:
  assumes "mark_inv g node [] V s"
  shows "mark_reach g node \<subseteq> set V"
proof
  fix r assume "r \<in> mark_reach g node"
  then show "r \<in> set V"
    using assms by (induction rule: mark_reach.induct) (auto simp: mark_inv_def)
qed

lemma markParents_marks:
  assumes D: "ntype (heap g node) = T_dependency"
    and r: "r \<in> mark_reach g node"
    and ty: "ntype (heap g r) = T_asset \<or> ntype (heap g r) = T_asset_group"
  shows "hasDeferred (heap (markParentsWithHasDeferred g node) r) = Some True"
proof -
  let ?Q = "\<lambda>V s. mark_inv g node [] V s"
  have "?Q (fst (dfs (node_key g) (inbound g) (mark_visit node) [(node, None)] [] g))
           (snd (dfs (node_key g) (inbound g) (mark_visit node) [(node, None)] [] g))"
  proof (rule dfs_inv_rule[where I = "mark_inv g node" and Q = ?Q], goal_cases)
    case 1
    show ?case by (simp add: mark_inv_def flags_only_refl)
  next
    case (2 n ctx stack V s)
    then show ?case by (rule mark_inv_pop)
  next
    case (3 n ctx stack V s s' c sk st)
    from mark_inv_visit[OF 3 D] show ?case by simp
  next
    case (4 V s)
    then show ?case .
  qed
  then have fin: "mark_inv g node [] (fst (traverseAncestors g node (mark_visit node) g))
      (markParentsWithHasDeferred g node)"
    by (simp add: markParentsWithHasDeferred_def traverseAncestors_def)
  from mark_inv_final[OF fin] r have "r \<in> set (fst (traverseAncestors g node (mark_visit node) g))"
    by blast
  with fin ty show ?thesis by (auto simp: mark_inv_def simp del: ntype.simps)
qed


lemma flags_only_structure:
  assumes "flags_only g s"
  shows "nodes s = nodes g" and "edges s = edges g" and "node_key s = node_key g"
proof -
  have eq: "s\<lparr>heap := heap g\<rparr> = g" using assms by (simp add: flags_only_def)
  have "nodes (s\<lparr>heap := heap g\<rparr>) = nodes g" by (simp only: eq)
  then show "nodes s = nodes g" by simp
  have "edges (s\<lparr>heap := heap g\<rparr>) = edges g" by (simp only: eq)
  then show "edges s = edges g" by simp
  show "node_key s = node_key g"
  proof
    fix r
    have "(heap s r)\<lparr>hasDeferred := hasDeferred (heap g r)\<rparr> = heap g r"
      using assms by (simp add: flags_only_def)
    then have "node_id ((heap s r)\<lparr>hasDeferred := hasDeferred (heap g r)\<rparr>) = node_id (heap g r)"
      by (simp only:)
    then show "node_key s r = node_key g r" by (simp add: node_key_def)
  qed
qed

lemma flags_only_children:
  "flags_only g s \<Longrightarrow> getNodesConnectedFrom s n = getNodesConnectedFrom g n"
  by (simp add: getNodesConnectedFrom_def outbound_def flags_only_structure)

definition unmark_inv :: "asset_graph \<Rightarrow> ref \<Rightarrow> (ref \<times> bool option) list \<Rightarrow> ref list \<Rightarrow> asset_graph \<Rightarrow> bool" where
  "unmark_inv g node stack V s \<longleftrightarrow>
     flags_only g s \<and>
     (\<forall>r. hasDeferred (heap s r) = Some True \<longrightarrow> hasDeferred (heap g r) = Some True) \<and>
     (\<forall>v\<in>set V. ntype (heap g v) = T_asset \<and>
          (\<forall>c\<in>set (getNodesConnectedFrom g v). hasDeferred (heap g c) \<noteq> Some True) \<longrightarrow>
        hasDeferred (heap s v) = None) \<and>
     (\<forall>v\<in>set V. v = node \<or> ntype (heap g v) = T_asset \<longrightarrow>
        set (getNodesConnectedTo g v) \<subseteq> set V \<union> fst ` set stack) \<and>
     node \<in> set V \<union> fst ` set stack"

lemma unmark_inv_pop:
  "unmark_inv g node ((n, ctx) # stack) V s \<Longrightarrow> n \<in> set V \<Longrightarrow> unmark_inv g node stack V s"
  unfolding unmark_inv_def by auto

lemma flagged_iff:
  "(case hasDeferred x of None \<Rightarrow> False | Some b \<Rightarrow> b) \<longleftrightarrow> hasDeferred x = Some True"
  by (cases "hasDeferred x") auto

lemma unmark_inv_visit:
  assumes inv: "unmark_inv g node ((n, ctx) # stack) V s" and nV: "n \<notin> set V"
    and v: "unmark_visit node n ctx s = (s', c, sk, st)"
    and D: "ntype (heap g node) = T_dependency"
  shows "\<not> st \<and> (sk \<longrightarrow> unmark_inv g node stack (V @ [n]) s') \<and>
     (\<not> sk \<longrightarrow> unmark_inv g node
        (map (\<lambda>x. (x, case c of None \<Rightarrow> ctx | Some y \<Rightarrow> Some y)) (adjacent (node_key g) (inbound g) n) @ stack)
        (V @ [n]) s')"
proof -
  have fo: "flags_only g s" using inv by (simp add: unmark_inv_def)
  have mono: "\<And>r. hasDeferred (heap s r) = Some True \<Longrightarrow> hasDeferred (heap g r) = Some True"
    using inv by (simp add: unmark_inv_def)
  have ty: "ntype (heap s n) = ntype (heap g n)" by (rule flags_only_ntype[OF fo])
  have ch: "getNodesConnectedFrom s n = getNodesConnectedFrom g n" by (rule flags_only_children[OF fo])
  have fo': "flags_only g s'"
    using unmark_visit_flags_only[OF fo, of node n ctx] v by simp
  have adj: "adjacent (node_key g) (inbound g) n = getNodesConnectedTo g n"
    by (simp add: getNodesConnectedTo_def)
  consider (asset) "ntype (heap g n) = T_asset"
    | (group) "ntype (heap g n) = T_asset_group"
    | (start) "ntype (heap g n) \<noteq> T_asset" "ntype (heap g n) \<noteq> T_asset_group" "n = node"
    | (other) "ntype (heap g n) \<noteq> T_asset" "ntype (heap g n) \<noteq> T_asset_group" "n \<noteq> node"
    by blast
  then show ?thesis
  proof cases
    case asset
    let ?h = "list_ex (\<lambda>c. hasDeferred (heap s c) = Some True) (getNodesConnectedFrom g n)"
    have r: "s' = (if \<not> ?h then set_hasDeferred n None s else s)" "\<not> sk" "\<not> st"
      using v ty asset by (simp_all add: unmark_visit_def ch Let_def flagged_iff del: ntype.simps)
    have clear: "(\<forall>c\<in>set (getNodesConnectedFrom g n). hasDeferred (heap g c) \<noteq> Some True) \<Longrightarrow> \<not> ?h"
      using mono by (auto simp: list_ex_iff)
    show ?thesis
      using inv nV fo' asset r(2,3) clear unfolding unmark_inv_def r(1) adj
      by (auto simp: set_hasDeferred_heap image_Un image_image simp del: ntype.simps)
  next
    case group
    then have r: "s' = (if ctx \<noteq> Some True then set_hasDeferred n None s else s)" "sk" "\<not> st"
      using v ty by (simp_all add: unmark_visit_def del: ntype.simps)
    have "n \<noteq> node" using group D by auto
    then show ?thesis
      using inv nV fo' group r(2,3) unfolding unmark_inv_def r(1) adj
      by (auto simp: set_hasDeferred_heap simp del: ntype.simps)
  next
    case start
    then have r: "s' = s" "\<not> sk" "\<not> st"
      using v ty by (simp_all add: unmark_visit_def del: ntype.simps)
    show ?thesis
      using inv nV fo' start r(2,3) unfolding unmark_inv_def r(1) adj
      by (auto simp: image_Un image_image simp del: ntype.simps)
  next
    case other
    then have r: "s' = s" "sk" "\<not> st"
      using v ty by (simp_all add: unmark_visit_def del: ntype.simps)
    show ?thesis
      using inv nV fo' other r(2,3) unfolding unmark_inv_def r(1) adj
      by (auto simp del: ntype.simps)
  qed
qed

lemma unmark_inv_final:
  assumes "unmark_inv g node [] V s"
  shows "mark_reach g node \<subseteq> set V"
proof
  fix r assume "r \<in> mark_reach g node"
  then show "r \<in> set V"
    using assms by (induction rule: mark_reach.induct) (auto simp: unmark_inv_def)
qed

lemma unmarkParents_clears:
  assumes D: "ntype (heap g node) = T_dependency"
    and r: "r \<in> mark_reach g node"
    and ty: "ntype (heap g r) = T_asset"
    and nc: "\<forall>c\<in>set (getNodesConnectedFrom g r). hasDeferred (heap g c) \<noteq> Some True"
  shows "hasDeferred (heap (unmarkParentsWithHasDeferred g node) r) = None"
proof -
  let ?Q = "\<lambda>V s. unmark_inv g node [] V s"
  have "?Q (fst (dfs (node_key g) (inbound g) (unmark_visit node) [(node, None)] [] g))
           (snd (dfs (node_key g) (inbound g) (unmark_visit node) [(node, None)] [] g))"
  proof (rule dfs_inv_rule[where I = "unmark_inv g node" and Q = ?Q], goal_cases)
    case 1
    show ?case by (simp add: unmark_inv_def flags_only_refl)
  next
    case (2 n ctx stack V s)
    then show ?case by (rule unmark_inv_pop)
  next
    case (3 n ctx stack V s s' c sk st)
    from unmark_inv_visit[OF 3 D] show ?case by simp
  next
    case (4 V s)
    then show ?case .
  qed
  then have fin: "unmark_inv g node [] (fst (traverseAncestors g node (unmark_visit node) g))
      (unmarkParentsWithHasDeferred g node)"
    by (simp add: unmarkParentsWithHasDeferred_def traverseAncestors_def)
  from unmark_inv_final[OF fin] r have "r \<in> set (fst (traverseAncestors g node (unmark_visit node) g))"
    by blast
  with fin ty nc show ?thesis by (auto simp: unmark_inv_def simp del: ntype.simps)
qed

section \<open>Node constructors\<close>

text \<open>
  Lines 39 to 79. \<^verbatim>\<open>md5FromObject\<close> comes from \<^verbatim>\<open>@parcel/utils\<close>; the constructors that
  hash a payload take it as a parameter.
\<close>

definition nodeFromDep :: "dependency \<Rightarrow> node" where
  "nodeFromDep dep =
     \<lparr>node_id = dep_id dep, node_value = DependencyValue dep, usedSymbols = [],
      correspondingRequest = None, complete = None, hasDeferred = None, deferred = None\<rparr>"

definition nodeFromAssetGroup :: "(assetGroup \<Rightarrow> string) \<Rightarrow> assetGroup \<Rightarrow> node" where
  "nodeFromAssetGroup md5FromObject ag =
     \<lparr>node_id = md5FromObject ag, node_value = AssetGroupValue ag, usedSymbols = [],
      correspondingRequest = None, complete = None, hasDeferred = None, deferred = None\<rparr>"

definition nodeFromAsset :: "asset \<Rightarrow> node" where
  "nodeFromAsset a =
     \<lparr>node_id = asset_id a, node_value = AssetValue a, usedSymbols = [],
      correspondingRequest = None, complete = None, hasDeferred = None, deferred = None\<rparr>"

definition nodeFromEntrySpecifier :: "string \<Rightarrow> node" where
  "nodeFromEntrySpecifier e =
     \<lparr>node_id = ''entry_specifier:'' @ e, node_value = EntrySpecifierValue e, usedSymbols = [],
      correspondingRequest = None, complete = None, hasDeferred = None, deferred = None\<rparr>"

definition nodeFromEntryFile :: "(entry \<Rightarrow> string) \<Rightarrow> entry \<Rightarrow> node" where
  "nodeFromEntryFile md5FromObject e =
     \<lparr>node_id = ''entry_file:'' @ md5FromObject e, node_value = EntryFileValue e, usedSymbols = [],
      correspondingRequest = None, complete = None, hasDeferred = None, deferred = None\<rparr>"

section \<open>Example graphs\<close>

text \<open>
  A chain Asset a0, Dependency d0, AssetGroup g0, Asset a, Dependency d, AssetGroup g
  (references 0 to 5), both groups free of side effects and no symbol used yet;
  \<open>ex_marked\<close> is the chain after d was deferred and then came to use a symbol;
  \<open>ex_undeferred\<close> is the chain with g already marked as not deferred.
\<close>

definition ex_asset :: "string \<Rightarrow> asset" where
  "ex_asset i = \<lparr>asset_id = i, uniqueKey = None, asset_symbols = None, dependencies = [], outputHash = None\<rparr>"

definition ex_dep :: "string \<Rightarrow> dependency" where
  "ex_dep i = \<lparr>dep_id = i, moduleSpecifier = ''./lib'', dep_target = None, dep_symbols = [], weakSymbols = {}\<rparr>"

definition ex_group :: "string \<Rightarrow> assetGroup" where
  "ex_group p = \<lparr>group_filePath = p, sideEffects = Some False\<rparr>"

definition ex_chain :: asset_graph where
  "ex_chain =
     \<lparr>heap = (\<lambda>_. nodeFromAsset (ex_asset ''a0''))
        (1 := nodeFromDep (ex_dep ''d0''),
         2 := nodeFromAssetGroup group_filePath (ex_group ''g0''),
         3 := nodeFromAsset (ex_asset ''a''),
         4 := nodeFromDep (ex_dep ''d''),
         5 := nodeFromAssetGroup group_filePath (ex_group ''g'')),
      nextRef = 6,
      nodes = [''a0'' \<mapsto> 0, ''d0'' \<mapsto> 1, ''g0'' \<mapsto> 2, ''a'' \<mapsto> 3, ''d'' \<mapsto> 4, ''g'' \<mapsto> 5],
      edges = [(''a0'', ''d0''), (''d0'', ''g0''), (''g0'', ''a''), (''a'', ''d''), (''d'', ''g'')],
      rootNodeId = None, hash = None, onNodeRemoved = False, observed = []\<rparr>"


definition ex_marked :: asset_graph where
  "ex_marked =
     ex_chain\<lparr>heap := (heap ex_chain)
        (2 := (nodeFromAssetGroup group_filePath (ex_group ''g0''))\<lparr>hasDeferred := Some True\<rparr>,
         3 := (nodeFromAsset (ex_asset ''a''))\<lparr>hasDeferred := Some True\<rparr>,
         4 := (nodeFromDep (ex_dep ''d''))\<lparr>hasDeferred := Some True, usedSymbols := [''x'']\<rparr>,
         5 := (nodeFromAssetGroup group_filePath (ex_group ''g''))\<lparr>deferred := Some True\<rparr>)\<rparr>"

definition ex_undeferred :: asset_graph where
  "ex_undeferred =
     ex_chain\<lparr>heap := (heap ex_chain)
        (5 := (nodeFromAssetGroup group_filePath (ex_group ''g''))\<lparr>deferred := Some False\<rparr>)\<rparr>"

text \<open>
  Modelled from the spec: the nodes a descendant walk (\<^verbatim>\<open>Graph.traverse\<close>, section 4.2)
  visits from \<open>r\<close>, and whether one of them is a Dependency with a deferred AssetGroup
  child.
\<close>

definition descendants :: "asset_graph \<Rightarrow> ref \<Rightarrow> ref list" where
  "descendants g r =
     fst (dfs (node_key g) (outbound g) plain_visit [(r, None)] [] ())"

definition deferred_edge_below :: "asset_graph \<Rightarrow> ref \<Rightarrow> bool" where
  "deferred_edge_below g r \<longleftrightarrow>
     list_ex (\<lambda>d. ntype (heap g d) = T_dependency \<and>
                list_ex (\<lambda>c. ntype (heap g c) = T_asset_group \<and> deferred (heap g c) = Some True)
                  (getNodesConnectedFrom g d))
       (descendants g r)"

lemmas ex_defs = ex_chain_def nodeFromDep_def nodeFromAsset_def nodeFromAssetGroup_def ex_asset_def
  ex_dep_def ex_group_def ex_marked_def ex_undeferred_def

lemmas eval_defs = shouldVisitChild_def shouldDeferDependency_def markParentsWithHasDeferred_def
  unmarkParentsWithHasDeferred_def traverseAncestors_def dfs.simps inbound_def outbound_def
  node_key_def adjacent_def set_deferred_def set_hasDeferred_def mark_visit_def unmark_visit_def
  getNodesConnectedFrom_def getNodesConnectedTo_def descendants_def deferred_edge_below_def
  plain_visit_def

lemma flag_writes:
  fixes g D G v w
  defines "g2 \<equiv> set_deferred G v (set_hasDeferred D w g)"
  shows "node_key g2 = node_key g" and "inbound g2 = inbound g" and "outbound g2 = outbound g"
    and "ntype (heap g2 r) = ntype (heap g r)"
    and "D \<noteq> G \<Longrightarrow> hasDeferred (heap g2 r) = (if r = D then w else hasDeferred (heap g r))"
    and "deferred (heap g2 G) = v"
  by (auto simp: g2_def set_deferred_def set_hasDeferred_def node_key_def inbound_def outbound_def)

lemma mark_reach_cong:
  assumes "getNodesConnectedTo g' = getNodesConnectedTo g"
    and "\<And>r. ntype (heap g' r) = ntype (heap g r)"
    and "r \<in> mark_reach g n"
  shows "r \<in> mark_reach g' n"
  using assms(3)
proof (induction rule: mark_reach.induct)
  case (parent p)
  then show ?case using assms(1) by (auto intro: mark_reach.parent)
next
  case (climb a p)
  then show ?case using assms(1,2) by (auto intro: mark_reach.climb simp del: ntype.simps)
qed

section \<open>The visit decision\<close>

text \<open>
  Claim C10. When the AssetGroup child's \<^verbatim>\<open>deferred\<close> field is \<^verbatim>\<open>false\<close>,
  \<^verbatim>\<open>shouldVisitChild\<close> answers true at once and leaves the graph as it is; and after
  any sequence of further \<^verbatim>\<open>shouldVisitChild\<close> calls the field is still \<^verbatim>\<open>false\<close> and the
  answer still true, whatever the side-effects flag and the used symbols are.
\<close>

theorem shouldVisitChild_never_defers_again:
  assumes "ntype (heap g D) = T_dependency" and "ntype (heap g G) = T_asset_group"
    and "deferred (heap g G) = Some False"
  shows "shouldVisitChild g D G = (True, g) \<and>
     (\<forall>calls. deferred (heap (shouldVisitChild_calls g calls) G) = Some False \<and>
        shouldVisitChild (shouldVisitChild_calls g calls) D G = (True, shouldVisitChild_calls g calls))"
  using assms by (simp add: shouldVisitChild_def calls_false_kept)

theorem shouldVisitChild_never_defers_again_witness:
  "shouldDeferDependency (heap ex_undeferred 4) (sideEffects (ex_group ''g'')) \<and>
   shouldVisitChild ex_undeferred 4 5 = (True, ex_undeferred) \<and>
   deferred (heap (shouldVisitChild_calls ex_undeferred [(4, 5), (1, 2), (4, 5)]) 5) = Some False \<and>
   shouldVisitChild (shouldVisitChild_calls ex_undeferred [(4, 5), (1, 2), (4, 5)]) 4 5 =
     (True, shouldVisitChild_calls ex_undeferred [(4, 5), (1, 2), (4, 5)])"
proof -
  have "ntype (heap ex_undeferred 4) = T_dependency" by (simp add: ex_defs)
  moreover have "ntype (heap ex_undeferred 5) = T_asset_group" by (simp add: ex_defs)
  moreover have "deferred (heap ex_undeferred 5) = Some False" by (simp add: ex_defs)
  moreover have "shouldDeferDependency (heap ex_undeferred 4) (sideEffects (ex_group ''g''))"
    by (simp add: ex_defs shouldDeferDependency_def)
  ultimately show ?thesis
    using shouldVisitChild_never_defers_again[of ex_undeferred 4 5] by blast
qed

text \<open>
  Claim C2, amended. For a Dependency \<open>D\<close> and an AssetGroup child \<open>G\<close> whose
  \<^verbatim>\<open>deferred\<close> field is not already \<^verbatim>\<open>false\<close>, \<^verbatim>\<open>shouldVisitChild\<close> answers false exactly
  when the group's side-effects flag is \<^verbatim>\<open>false\<close> and \<open>D\<close> uses no symbol, and it leaves
  \<^verbatim>\<open>D.hasDeferred\<close> and \<^verbatim>\<open>G.deferred\<close> equal to that condition.
\<close>

theorem shouldVisitChild_decision:
  assumes D: "ntype (heap g D) = T_dependency" and G: "node_value (heap g G) = AssetGroupValue ag"
    and nf: "deferred (heap g G) \<noteq> Some False"
  shows "fst (shouldVisitChild g D G) = (\<not> (sideEffects ag = Some False \<and> usedSymbols (heap g D) = [])) \<and>
     hasDeferred (heap (snd (shouldVisitChild g D G)) D)
       = Some (sideEffects ag = Some False \<and> usedSymbols (heap g D) = []) \<and>
     deferred (heap (snd (shouldVisitChild g D G)) G)
       = Some (sideEffects ag = Some False \<and> usedSymbols (heap g D) = [])"
proof -
  define dfr where "dfr \<longleftrightarrow> sideEffects ag = Some False \<and> usedSymbols (heap g D) = []"
  define g2 where "g2 = set_deferred G (Some dfr) (set_hasDeferred D (Some dfr) g)"
  define g3 where "g3 =
      (if deferred (heap g G) \<noteq> Some True \<and> dfr then markParentsWithHasDeferred g2 D
       else if deferred (heap g G) = Some True \<and> \<not> dfr then unmarkParentsWithHasDeferred g2 D
       else g2)"
  have DG: "D \<noteq> G" using D G by auto
  have tyD: "ntype (heap g2 D) \<noteq> T_asset" "ntype (heap g2 D) \<noteq> T_asset_group"
    using D unfolding g2_def by (simp_all add: flag_writes(4) del: ntype.simps)
  have hD: "hasDeferred (heap g2 D) = Some dfr"
    using DG unfolding g2_def by (simp add: flag_writes(5))
  have dG: "deferred (heap g2 G) = Some dfr"
    unfolding g2_def by (simp add: flag_writes(6))
  have fo: "flags_only g2 g3"
    unfolding g3_def by (simp add: markParents_flags_only unmarkParents_flags_only flags_only_refl)
  have res: "hasDeferred (heap g3 D) = Some dfr" "deferred (heap g3 G) = Some dfr"
    using flags_only_other[OF fo tyD] hD flags_only_deferred[OF fo, of G] dG by simp_all
  have "shouldVisitChild g D G = (\<not> dfr, g3)"
    using D G nf unfolding g3_def g2_def dfr_def
    by (simp add: shouldVisitChild_def shouldDeferDependency_def Let_def)
  then show ?thesis
    using res unfolding dfr_def by (simp del: ntype.simps)
qed

theorem shouldVisitChild_decision_witness:
  "fst (shouldVisitChild ex_chain 4 5) = False \<and>
   hasDeferred (heap (snd (shouldVisitChild ex_chain 4 5)) 4) = Some True \<and>
   deferred (heap (snd (shouldVisitChild ex_chain 4 5)) 5) = Some True \<and>
   fst (shouldVisitChild ex_marked 4 5) = True \<and>
   hasDeferred (heap (snd (shouldVisitChild ex_marked 4 5)) 4) = Some False \<and>
   deferred (heap (snd (shouldVisitChild ex_marked 4 5)) 5) = Some False"
proof -
  have a: "ntype (heap ex_chain 4) = T_dependency"
    "node_value (heap ex_chain 5) = AssetGroupValue (ex_group ''g'')"
    "deferred (heap ex_chain 5) \<noteq> Some False"
    "usedSymbols (heap ex_chain 4) = []"
    by (simp_all add: ex_defs)
  have b: "ntype (heap ex_marked 4) = T_dependency"
    "node_value (heap ex_marked 5) = AssetGroupValue (ex_group ''g'')"
    "deferred (heap ex_marked 5) \<noteq> Some False"
    "usedSymbols (heap ex_marked 4) = [''x'']"
    by (simp_all add: ex_defs)
  have c: "sideEffects (ex_group ''g'') = Some False" by (simp add: ex_group_def)
  show ?thesis
    using shouldVisitChild_decision[OF a(1,2,3)] shouldVisitChild_decision[OF b(1,2,3)]
    by (simp add: a(4) b(4) c)
qed

text \<open>
  The claim as stated, without the condition on \<^verbatim>\<open>G.deferred\<close>, fails: with the field
  \<^verbatim>\<open>false\<close> the answer is true although the deferral condition holds, and
  \<^verbatim>\<open>D.hasDeferred\<close> is not written.
\<close>

theorem shouldVisitChild_decision_counterexample:
  "ntype (heap ex_undeferred 4) = T_dependency \<and>
   node_value (heap ex_undeferred 5) = AssetGroupValue (ex_group ''g'') \<and>
   sideEffects (ex_group ''g'') = Some False \<and>
   usedSymbols (heap ex_undeferred 4) = [] \<and>
   fst (shouldVisitChild ex_undeferred 4 5) = True \<and>
   hasDeferred (heap (snd (shouldVisitChild ex_undeferred 4 5)) 4) = None"
  by (simp add: shouldVisitChild_def ex_defs)

section \<open>The ancestor flags after a deferral transition\<close>



text \<open>What a walk has not visited it has not written, and it visits walked nodes only.\<close>

definition mark_sound :: "asset_graph \<Rightarrow> ref \<Rightarrow> (ref \<times> bool option) list \<Rightarrow> ref list \<Rightarrow> asset_graph \<Rightarrow> bool" where
  "mark_sound g node stack V s \<longleftrightarrow>
     flags_only g s \<and>
     (\<forall>r. r \<notin> set V \<longrightarrow> heap s r = heap g r) \<and>
     set V \<union> fst ` set stack \<subseteq> insert node (mark_reach g node)"

lemma mark_sound_visit:
  assumes inv: "mark_sound g node ((n, ctx) # stack) V s" and nV: "n \<notin> set V"
    and v: "mark_visit node n ctx s = (s', c, sk, st)"
    and D: "ntype (heap g node) = T_dependency"
  shows "\<not> st \<and> (sk \<longrightarrow> mark_sound g node stack (V @ [n]) s') \<and>
     (\<not> sk \<longrightarrow> mark_sound g node
        (map (\<lambda>x. (x, case c of None \<Rightarrow> ctx | Some y \<Rightarrow> Some y)) (adjacent (node_key g) (inbound g) n) @ stack)
        (V @ [n]) s')"
proof -
  have fo: "flags_only g s" using inv by (simp add: mark_sound_def)
  have ty: "ntype (heap s n) = ntype (heap g n)" by (rule flags_only_ntype[OF fo])
  have fo': "flags_only g s'"
    using mark_visit_flags_only[OF fo, of node n ctx] v by simp
  have adj: "adjacent (node_key g) (inbound g) n = getNodesConnectedTo g n"
    by (simp add: getNodesConnectedTo_def)
  have nin: "n \<in> insert node (mark_reach g node)" using inv by (simp add: mark_sound_def)
  have st: "\<not> st" using v by (auto simp: mark_visit_def split: if_splits)
  have s': "s' = s \<or> s' = set_hasDeferred n (Some True) s"
    using v by (auto simp: mark_visit_def split: if_splits)
  have old: "\<forall>r. r \<notin> set (V @ [n]) \<longrightarrow> heap s' r = heap g r"
    using inv s' by (auto simp: mark_sound_def set_hasDeferred_heap)
  have V': "set (V @ [n]) \<union> fst ` set stack \<subseteq> insert node (mark_reach g node)"
    using inv by (auto simp: mark_sound_def)
  have push: "set (getNodesConnectedTo g n) \<subseteq> mark_reach g node" if "\<not> sk"
  proof -
    have "n = node \<or> ntype (heap g n) = T_asset"
      using v that ty by (auto simp: mark_visit_def split: if_splits simp del: ntype.simps)
    then show ?thesis
    proof
      assume "n = node"
      then show ?thesis by (auto intro: mark_reach.parent)
    next
      assume a: "ntype (heap g n) = T_asset"
      then have "n \<noteq> node" using D by auto
      then have "n \<in> mark_reach g node" using nin by simp
      then show ?thesis using a by (auto intro: mark_reach.climb)
    qed
  qed
  show ?thesis
    using st fo' old V' push unfolding mark_sound_def adj
    by (auto simp: image_Un image_image)
qed

lemma markParents_sound:
  assumes D: "ntype (heap g node) = T_dependency" and r: "r \<notin> mark_reach g node"
  shows "heap (markParentsWithHasDeferred g node) r = heap g r"
proof -
  let ?Q = "\<lambda>V s. mark_sound g node [] V s"
  have "?Q (fst (dfs (node_key g) (inbound g) (mark_visit node) [(node, None)] [] g))
           (snd (dfs (node_key g) (inbound g) (mark_visit node) [(node, None)] [] g))"
  proof (rule dfs_inv_rule[where I = "mark_sound g node" and Q = ?Q], goal_cases)
    case 1
    show ?case by (simp add: mark_sound_def flags_only_refl)
  next
    case (2 n ctx stack V s)
    then show ?case by (auto simp: mark_sound_def)
  next
    case (3 n ctx stack V s s' c sk st)
    from mark_sound_visit[OF 3 D] show ?case by simp
  next
    case (4 V s)
    then show ?case .
  qed
  then have fin: "mark_sound g node [] (fst (traverseAncestors g node (mark_visit node) g))
      (markParentsWithHasDeferred g node)"
    by (simp add: markParentsWithHasDeferred_def traverseAncestors_def)
  show ?thesis
  proof (cases "r = node")
    case True
    have "ntype (heap g r) \<noteq> T_asset" "ntype (heap g r) \<noteq> T_asset_group" using True D by auto
    then show ?thesis using fin flags_only_other by (simp add: mark_sound_def)
  next
    case False
    then have "r \<notin> set (fst (traverseAncestors g node (mark_visit node) g))"
      using fin r by (auto simp: mark_sound_def)
    then show ?thesis using fin by (simp add: mark_sound_def)
  qed
qed

text \<open>The heap after the marking walk.\<close>

lemma markParents_heap:
  assumes D: "ntype (heap g node) = T_dependency"
  shows "hasDeferred (heap (markParentsWithHasDeferred g node) r) =
     (if r \<in> mark_reach g node \<and> (ntype (heap g r) = T_asset \<or> ntype (heap g r) = T_asset_group)
      then Some True else hasDeferred (heap g r))"
proof (cases "r \<in> mark_reach g node")
  case False
  then show ?thesis using markParents_sound[OF D] by simp
next
  case True
  show ?thesis
  proof (cases "ntype (heap g r) = T_asset \<or> ntype (heap g r) = T_asset_group")
    case t: True
    then show ?thesis using markParents_marks[OF D True] True by simp
  next
    case f: False
    then have "heap (markParentsWithHasDeferred g node) r = heap g r"
      using flags_only_other[OF markParents_flags_only] by blast
    then show ?thesis using f by simp
  qed
qed


text \<open>
  \<open>child_flagged g v\<close>: some direct child of \<open>v\<close> is flagged \<^verbatim>\<open>hasDeferred\<close>;
  \<open>plain_child_flagged g v\<close>: some direct child that is neither an Asset nor an AssetGroup
  is, a child whose flag the walks never write. \<open>walked_asset g node n w\<close>: \<open>w\<close> is an
  Asset the walk from \<open>node\<close> reaches and \<open>n\<close> is one of its parents.
\<close>

definition child_flagged :: "asset_graph \<Rightarrow> ref \<Rightarrow> bool" where
  "child_flagged g v \<longleftrightarrow>
     list_ex (\<lambda>c. hasDeferred (heap g c) = Some True) (getNodesConnectedFrom g v)"

definition plain_child_flagged :: "asset_graph \<Rightarrow> ref \<Rightarrow> bool" where
  "plain_child_flagged g v \<longleftrightarrow>
     list_ex (\<lambda>c. hasDeferred (heap g c) = Some True \<and> ntype (heap g c) \<noteq> T_asset \<and>
                  ntype (heap g c) \<noteq> T_asset_group)
       (getNodesConnectedFrom g v)"

definition walked_asset :: "asset_graph \<Rightarrow> ref \<Rightarrow> ref \<Rightarrow> ref \<Rightarrow> bool" where
  "walked_asset g node n w \<longleftrightarrow>
     w \<in> mark_reach g node \<and> ntype (heap g w) = T_asset \<and> n \<in> set (getNodesConnectedTo g w)"

definition ctx_ok :: "asset_graph \<Rightarrow> ref \<Rightarrow> ref \<times> bool option \<Rightarrow> bool" where
  "ctx_ok g node e \<longleftrightarrow>
     (snd e = None \<and> (fst e = node \<or> fst e \<in> set (getNodesConnectedTo g node))) \<or>
     (\<exists>w b. snd e = Some b \<and> walked_asset g node (fst e) w \<and>
        (b \<longrightarrow> child_flagged g w) \<and> (\<not> b \<longrightarrow> \<not> plain_child_flagged g w))"

definition group_ok :: "asset_graph \<Rightarrow> ref \<Rightarrow> asset_graph \<Rightarrow> ref \<Rightarrow> bool" where
  "group_ok g node s v \<longleftrightarrow>
     (hasDeferred (heap s v) = None \<and>
        (v \<in> set (getNodesConnectedTo g node) \<or>
         (\<exists>w. walked_asset g node v w \<and> \<not> plain_child_flagged g w))) \<or>
     (heap s v = heap g v \<and> (\<exists>w. walked_asset g node v w \<and> child_flagged g w))"

definition unmark_sound :: "asset_graph \<Rightarrow> ref \<Rightarrow> (ref \<times> bool option) list \<Rightarrow> ref list \<Rightarrow> asset_graph \<Rightarrow> bool" where
  "unmark_sound g node stack V s \<longleftrightarrow>
     flags_only g s \<and>
     (\<forall>r. hasDeferred (heap s r) = hasDeferred (heap g r) \<or> hasDeferred (heap s r) = None) \<and>
     (\<forall>r. r \<notin> set V \<longrightarrow> heap s r = heap g r) \<and>
     set V \<union> fst ` set stack \<subseteq> insert node (mark_reach g node) \<and>
     (node \<notin> set V \<longrightarrow> stack = [(node, None)]) \<and>
     (\<forall>v\<in>set V. ntype (heap g v) = T_asset \<and> plain_child_flagged g v \<longrightarrow> heap s v = heap g v) \<and>
     (\<forall>v\<in>set V. ntype (heap g v) = T_asset_group \<longrightarrow> group_ok g node s v) \<and>
     (\<forall>e\<in>set stack. ctx_ok g node e)"

lemma unmark_sound_pop:
  "unmark_sound g node ((n, ctx) # stack) V s \<Longrightarrow> n \<in> set V \<Longrightarrow> unmark_sound g node stack V s"
  unfolding unmark_sound_def by auto

lemma set_hasDeferred_other: "r \<noteq> n \<Longrightarrow> heap (set_hasDeferred n v s) r = heap s r"
  by (simp add: set_hasDeferred_def)

lemma set_hasDeferred_flag: "hasDeferred (heap (set_hasDeferred n v s) n) = v"
  by (simp add: set_hasDeferred_def)

lemma unmark_sound_visit:
  assumes inv: "unmark_sound g node ((n, ctx) # stack) V s" and nV: "n \<notin> set V"
    and v: "unmark_visit node n ctx s = (s', c, sk, st)"
    and D: "ntype (heap g node) = T_dependency"
  shows "\<not> st \<and> (sk \<longrightarrow> unmark_sound g node stack (V @ [n]) s') \<and>
     (\<not> sk \<longrightarrow> unmark_sound g node
        (map (\<lambda>x. (x, case c of None \<Rightarrow> ctx | Some y \<Rightarrow> Some y)) (adjacent (node_key g) (inbound g) n) @ stack)
        (V @ [n]) s')"
proof -
  have fo: "flags_only g s" using inv by (simp add: unmark_sound_def)
  have only: "\<And>r. hasDeferred (heap s r) = hasDeferred (heap g r) \<or> hasDeferred (heap s r) = None"
    using inv by (simp add: unmark_sound_def)
  have fresh: "\<And>r. r \<notin> set V \<Longrightarrow> heap s r = heap g r"
    using inv by (simp add: unmark_sound_def)
  have reach: "set V \<union> fst ` set stack \<subseteq> insert node (mark_reach g node)"
    and nin: "n \<in> insert node (mark_reach g node)"
    using inv by (auto simp: unmark_sound_def)
  have first: "node \<notin> set V \<Longrightarrow> n = node \<and> ctx = None \<and> stack = []"
    using inv by (auto simp: unmark_sound_def)
  have kept: "\<And>v. v \<in> set V \<Longrightarrow> ntype (heap g v) = T_asset \<Longrightarrow> plain_child_flagged g v \<Longrightarrow>
      heap s v = heap g v"
    using inv by (auto simp: unmark_sound_def simp del: ntype.simps)
  have groups: "\<And>v. v \<in> set V \<Longrightarrow> ntype (heap g v) = T_asset_group \<Longrightarrow> group_ok g node s v"
    using inv by (auto simp: unmark_sound_def simp del: ntype.simps)
  have entries: "\<And>e. e \<in> set stack \<Longrightarrow> ctx_ok g node e" and entry: "ctx_ok g node (n, ctx)"
    using inv by (auto simp: unmark_sound_def)
  have ty: "ntype (heap s n) = ntype (heap g n)" by (rule flags_only_ntype[OF fo])
  have ch: "getNodesConnectedFrom s n = getNodesConnectedFrom g n" by (rule flags_only_children[OF fo])
  have fo': "flags_only g s'"
    using unmark_visit_flags_only[OF fo, of node n ctx] v by simp
  have adj: "adjacent (node_key g) (inbound g) n = getNodesConnectedTo g n"
    by (simp add: getNodesConnectedTo_def)
  have hn: "heap s n = heap g n" using fresh nV by simp
  consider (asset) "ntype (heap g n) = T_asset"
    | (group) "ntype (heap g n) = T_asset_group"
    | (start) "ntype (heap g n) \<noteq> T_asset" "ntype (heap g n) \<noteq> T_asset_group" "n = node"
    | (other) "ntype (heap g n) \<noteq> T_asset" "ntype (heap g n) \<noteq> T_asset_group" "n \<noteq> node"
    by blast
  then show ?thesis
  proof cases
    case asset
    define b where "b = list_ex (\<lambda>c. hasDeferred (heap s c) = Some True) (getNodesConnectedFrom g n)"
    have r: "s' = (if \<not> b then set_hasDeferred n None s else s)" "c = Some b" "\<not> sk" "\<not> st"
      using v ty asset unfolding b_def
      by (simp_all add: unmark_visit_def ch Let_def flagged_iff del: ntype.simps)
    have nn: "n \<noteq> node" using asset D by auto
    then have nr: "n \<in> mark_reach g node" and nodeV: "node \<in> set V"
      using nin first by auto
    have bT: "b \<Longrightarrow> child_flagged g n"
      unfolding b_def child_flagged_def list_ex_iff using only by (metis option.distinct(1))
    have bK: "plain_child_flagged g n \<Longrightarrow> b"
      unfolding b_def plain_child_flagged_def list_ex_iff
      using flags_only_other[OF fo] by (metis (no_types, lifting))
    have only': "\<And>r. hasDeferred (heap s' r) = hasDeferred (heap g r) \<or> hasDeferred (heap s' r) = None"
      using only unfolding r(1) by (simp add: set_hasDeferred_heap)
    have fresh': "\<And>r. r \<notin> set (V @ [n]) \<Longrightarrow> heap s' r = heap g r"
      using fresh unfolding r(1) by (simp add: set_hasDeferred_heap)
    have oldV: "\<And>v. v \<in> set V \<Longrightarrow> heap s' v = heap s v"
      using nV unfolding r(1) by (auto simp: set_hasDeferred_heap)
    have kept': "\<And>v. v \<in> set (V @ [n]) \<Longrightarrow> ntype (heap g v) = T_asset \<Longrightarrow> plain_child_flagged g v \<Longrightarrow>
      heap s' v = heap g v"
    proof -
      fix v assume a: "v \<in> set (V @ [n])" "ntype (heap g v) = T_asset" "plain_child_flagged g v"
      show "heap s' v = heap g v"
      proof (cases "v = n")
        case True
        then have "b" using bK a(3) by simp
        then show ?thesis using True hn by (simp add: r(1))
      next
        case False
        then have "v \<in> set V" using a(1) by simp
        then show ?thesis using kept[OF _ a(2,3)] oldV by simp
      qed
    qed
    have groups': "\<And>v. v \<in> set (V @ [n]) \<Longrightarrow> ntype (heap g v) = T_asset_group \<Longrightarrow> group_ok g node s' v"
    proof -
      fix v assume a: "v \<in> set (V @ [n])" "ntype (heap g v) = T_asset_group"
      then have "v \<noteq> n" using asset by auto
      then have vV: "v \<in> set V" using a(1) by simp
      show "group_ok g node s' v"
        using groups[OF vV a(2)] oldV[OF vV] by (simp add: group_ok_def)
    qed
    have new: "\<And>x. x \<in> set (getNodesConnectedTo g n) \<Longrightarrow> ctx_ok g node (x, Some b)"
      unfolding ctx_ok_def walked_asset_def using nr asset bT bK by auto
    have reach': "set (V @ [n]) \<union> (set (getNodesConnectedTo g n) \<union> fst ` set stack)
        \<subseteq> insert node (mark_reach g node)"
      using reach nr asset by (auto intro: mark_reach.climb)
    show ?thesis
      unfolding unmark_sound_def adj r(2)
      using r(3,4) fo' only' fresh' kept' groups' new entries reach' nodeV
      by (auto simp: image_Un image_image simp del: ntype.simps)
  next
    case group
    then have r: "s' = (if ctx \<noteq> Some True then set_hasDeferred n None s else s)" "sk" "\<not> st"
      using v ty by (simp_all add: unmark_visit_def del: ntype.simps)
    have nn: "n \<noteq> node" using group D by auto
    then have nodeV: "node \<in> set V" using first by auto
    have only': "\<And>r. hasDeferred (heap s' r) = hasDeferred (heap g r) \<or> hasDeferred (heap s' r) = None"
      using only unfolding r(1) by (simp add: set_hasDeferred_heap)
    have fresh': "\<And>r. r \<notin> set (V @ [n]) \<Longrightarrow> heap s' r = heap g r"
      using fresh unfolding r(1) by (simp add: set_hasDeferred_heap)
    have oldV: "\<And>v. v \<in> set V \<Longrightarrow> heap s' v = heap s v"
      using nV unfolding r(1) by (auto simp: set_hasDeferred_heap)
    have kept': "\<And>v. v \<in> set (V @ [n]) \<Longrightarrow> ntype (heap g v) = T_asset \<Longrightarrow> plain_child_flagged g v \<Longrightarrow>
      heap s' v = heap g v"
    proof -
      fix v assume a: "v \<in> set (V @ [n])" "ntype (heap g v) = T_asset" "plain_child_flagged g v"
      then have "v \<noteq> n" using group by auto
      then have "v \<in> set V" using a(1) by simp
      then show "heap s' v = heap g v" using kept[OF _ a(2,3)] oldV by simp
    qed
    have gn: "group_ok g node s' n"
    proof (cases "ctx = Some True")
      case True
      then obtain w where "walked_asset g node n w" "child_flagged g w"
        using entry by (auto simp: ctx_ok_def)
      moreover have "heap s' n = heap g n" using True hn by (simp add: r(1))
      ultimately show ?thesis by (auto simp: group_ok_def)
    next
      case False
      then have "hasDeferred (heap s' n) = None" by (simp add: r(1) set_hasDeferred_flag)
      moreover have "n \<in> set (getNodesConnectedTo g node) \<or>
          (\<exists>w. walked_asset g node n w \<and> \<not> plain_child_flagged g w)"
        using entry False nn by (auto simp: ctx_ok_def)
      ultimately show ?thesis by (simp add: group_ok_def)
    qed
    have groups': "\<And>v. v \<in> set (V @ [n]) \<Longrightarrow> ntype (heap g v) = T_asset_group \<Longrightarrow> group_ok g node s' v"
    proof -
      fix v assume a: "v \<in> set (V @ [n])" "ntype (heap g v) = T_asset_group"
      show "group_ok g node s' v"
      proof (cases "v = n")
        case True
        then show ?thesis using gn by simp
      next
        case False
        then have vV: "v \<in> set V" using a(1) by simp
        show ?thesis using groups[OF vV a(2)] oldV[OF vV] by (simp add: group_ok_def)
      qed
    qed
    have reach': "set (V @ [n]) \<union> fst ` set stack \<subseteq> insert node (mark_reach g node)"
      using reach nin by auto
    show ?thesis
      unfolding unmark_sound_def
      using r(2,3) fo' only' fresh' kept' groups' entries reach' nodeV
      by (auto simp del: ntype.simps)
  next
    case start
    then have r: "s' = s" "c = None" "\<not> sk" "\<not> st"
      using v ty by (simp_all add: unmark_visit_def del: ntype.simps)
    have c0: "ctx = None" "stack = []" using first nV start(3) by auto
    have kept': "\<And>v. v \<in> set (V @ [n]) \<Longrightarrow> ntype (heap g v) = T_asset \<Longrightarrow> plain_child_flagged g v \<Longrightarrow>
      heap s v = heap g v"
      using kept start(1) by auto
    have groups': "\<And>v. v \<in> set (V @ [n]) \<Longrightarrow> ntype (heap g v) = T_asset_group \<Longrightarrow> group_ok g node s v"
      using groups start(2) by auto
    have new: "\<And>x. x \<in> set (getNodesConnectedTo g n) \<Longrightarrow> ctx_ok g node (x, None)"
      unfolding ctx_ok_def using start(3) by auto
    have reach': "set (V @ [n]) \<union> set (getNodesConnectedTo g n) \<subseteq> insert node (mark_reach g node)"
      using reach start(3) by (auto intro: mark_reach.parent)
    show ?thesis
      unfolding unmark_sound_def adj r(1,2) c0
      using r(3,4) fo only fresh kept' groups' new reach' start(3)
      by (auto simp: image_Un image_image simp del: ntype.simps)
  next
    case other
    then have r: "s' = s" "sk" "\<not> st"
      using v ty by (simp_all add: unmark_visit_def del: ntype.simps)
    have nodeV: "node \<in> set V" using first other(3) by auto
    have kept': "\<And>v. v \<in> set (V @ [n]) \<Longrightarrow> ntype (heap g v) = T_asset \<Longrightarrow> plain_child_flagged g v \<Longrightarrow>
      heap s v = heap g v"
      using kept other(1) by auto
    have groups': "\<And>v. v \<in> set (V @ [n]) \<Longrightarrow> ntype (heap g v) = T_asset_group \<Longrightarrow> group_ok g node s v"
      using groups other(2) by auto
    have reach': "set (V @ [n]) \<union> fst ` set stack \<subseteq> insert node (mark_reach g node)"
      using reach nin by auto
    show ?thesis
      unfolding unmark_sound_def r(1)
      using r(2,3) fo only fresh kept' groups' entries reach' nodeV
      by (auto simp del: ntype.simps)
  qed
qed


lemma unmarkParents_walk:
  assumes D: "ntype (heap g node) = T_dependency"
  shows "\<exists>V. unmark_inv g node [] V (unmarkParentsWithHasDeferred g node) \<and>
     unmark_sound g node [] V (unmarkParentsWithHasDeferred g node)"
proof -
  let ?I = "\<lambda>stack V s. unmark_inv g node stack V s \<and> unmark_sound g node stack V s"
  let ?Q = "\<lambda>V s. ?I [] V s"
  have "?Q (fst (dfs (node_key g) (inbound g) (unmark_visit node) [(node, None)] [] g))
           (snd (dfs (node_key g) (inbound g) (unmark_visit node) [(node, None)] [] g))"
  proof (rule dfs_inv_rule[where I = ?I and Q = ?Q], goal_cases)
    case 1
    show ?case
      by (simp add: unmark_inv_def unmark_sound_def flags_only_refl ctx_ok_def)
  next
    case (2 n ctx stack V s)
    then show ?case using unmark_inv_pop unmark_sound_pop by blast
  next
    case (3 n ctx stack V s s' c sk st)
    from unmark_inv_visit[OF _ 3(2,3) D] unmark_sound_visit[OF _ 3(2,3) D] 3(1)
    show ?case by blast
  next
    case (4 V s)
    then show ?case .
  qed
  then show ?thesis
    unfolding unmarkParentsWithHasDeferred_def traverseAncestors_def by blast
qed

text \<open>The heap after the clearing walk.\<close>

lemma unmarkParents_heap:
  assumes D: "ntype (heap g node) = T_dependency"
  defines "s \<equiv> unmarkParentsWithHasDeferred g node"
  shows "hasDeferred (heap s r) = hasDeferred (heap g r) \<or> hasDeferred (heap s r) = None"
    and "r \<notin> mark_reach g node \<or> (ntype (heap g r) \<noteq> T_asset \<and> ntype (heap g r) \<noteq> T_asset_group)
           \<Longrightarrow> heap s r = heap g r"
    and "r \<in> mark_reach g node \<Longrightarrow> ntype (heap g r) = T_asset \<Longrightarrow> \<not> child_flagged g r \<Longrightarrow>
           hasDeferred (heap s r) = None"
    and "r \<in> mark_reach g node \<Longrightarrow> ntype (heap g r) = T_asset \<Longrightarrow> plain_child_flagged g r \<Longrightarrow>
           heap s r = heap g r"
    and "r \<in> mark_reach g node \<Longrightarrow> ntype (heap g r) = T_asset_group \<Longrightarrow> group_ok g node s r"
proof -
  obtain V where inv: "unmark_inv g node [] V s" and snd: "unmark_sound g node [] V s"
    using unmarkParents_walk[OF D] unfolding s_def by blast
  have fo: "flags_only g s" using snd by (simp add: unmark_sound_def)
  have V: "mark_reach g node \<subseteq> set V" using inv by (rule unmark_inv_final)
  have Vs: "set V \<subseteq> insert node (mark_reach g node)" using snd by (simp add: unmark_sound_def)
  show "hasDeferred (heap s r) = hasDeferred (heap g r) \<or> hasDeferred (heap s r) = None"
    using snd by (simp add: unmark_sound_def)
  show "heap s r = heap g r"
    if "r \<notin> mark_reach g node \<or> (ntype (heap g r) \<noteq> T_asset \<and> ntype (heap g r) \<noteq> T_asset_group)"
  proof (cases "ntype (heap g r) \<noteq> T_asset \<and> ntype (heap g r) \<noteq> T_asset_group")
    case True
    then show ?thesis using flags_only_other[OF fo] by blast
  next
    case False
    then have "r \<noteq> node" using D by auto
    then have "r \<notin> set V" using that False Vs by auto
    then show ?thesis using snd by (simp add: unmark_sound_def)
  qed
  show "hasDeferred (heap s r) = None"
    if "r \<in> mark_reach g node" "ntype (heap g r) = T_asset" "\<not> child_flagged g r"
    unfolding s_def
    using unmarkParents_clears[OF D that(1,2)] that(3)
    by (simp add: child_flagged_def list_ex_iff)
  show "heap s r = heap g r"
    if "r \<in> mark_reach g node" "ntype (heap g r) = T_asset" "plain_child_flagged g r"
    using snd that V unfolding unmark_sound_def by (auto simp del: ntype.simps)
  show "group_ok g node s r" if "r \<in> mark_reach g node" "ntype (heap g r) = T_asset_group"
    using snd that V unfolding unmark_sound_def by (auto simp del: ntype.simps)
qed

text \<open>
  The same two conditions on the graph before the call, where the flag of the
  dependency \<open>D\<close> itself, which the call clears first, does not count.
\<close>

definition other_child_flagged :: "asset_graph \<Rightarrow> ref \<Rightarrow> ref \<Rightarrow> bool" where
  "other_child_flagged g D v \<longleftrightarrow>
     list_ex (\<lambda>c. c \<noteq> D \<and> hasDeferred (heap g c) = Some True) (getNodesConnectedFrom g v)"

definition other_plain_child_flagged :: "asset_graph \<Rightarrow> ref \<Rightarrow> ref \<Rightarrow> bool" where
  "other_plain_child_flagged g D v \<longleftrightarrow>
     list_ex (\<lambda>c. c \<noteq> D \<and> hasDeferred (heap g c) = Some True \<and> ntype (heap g c) \<noteq> T_asset \<and>
                  ntype (heap g c) \<noteq> T_asset_group)
       (getNodesConnectedFrom g v)"

lemma mark_reach_eq:
  assumes "getNodesConnectedTo g' = getNodesConnectedTo g"
    and "\<And>r. ntype (heap g' r) = ntype (heap g r)"
  shows "mark_reach g' n = mark_reach g n"
proof -
  have "getNodesConnectedTo g = getNodesConnectedTo g'" using assms(1) by simp
  moreover have "\<And>r. ntype (heap g r) = ntype (heap g' r)" using assms(2) by simp
  ultimately show ?thesis
    using mark_reach_cong[OF assms(1) assms(2)] mark_reach_cong[of g g'] by blast
qed

text \<open>
  Claim C3, amended. Let \<open>D\<close> be a Dependency and \<open>G\<close> an AssetGroup, and \<open>g'\<close> the graph
  after \<^verbatim>\<open>shouldVisitChild(D, G)\<close>. The ancestor walk reaches from \<open>D\<close> the parents of \<open>D\<close>
  and, through Asset nodes only, their parents in turn (\<open>mark_reach\<close>); it does not climb
  past an AssetGroup or another Dependency.

  After a false-to-true transition, \<^verbatim>\<open>hasDeferred\<close> is true on \<open>D\<close> and on every Asset and
  AssetGroup the walk reaches, and is what it was on every other node: nodes above the
  first AssetGroup are not updated.

  After a true-to-false transition, on every node other than \<open>D\<close> the flag is what it
  was or is cleared, and it is what it was on every node the walk does not reach or that
  is neither an Asset nor an AssetGroup. A reached Asset loses the flag when none of its
  direct children other than \<open>D\<close> is flagged, and keeps it when a direct child other than
  \<open>D\<close> that is neither an Asset nor an AssetGroup (a sibling Dependency) is flagged. A
  reached AssetGroup loses the flag when no reached Asset among its children has another
  flagged child, and keeps it when it is not a parent of \<open>D\<close> and every reached Asset
  among its children has a flagged sibling Dependency; in every other case it is either
  cleared or left as it was.
\<close>

theorem deferral_transition_flags:
  assumes D: "ntype (heap g D) = T_dependency" and G: "node_value (heap g G) = AssetGroupValue ag"
    and g': "g' = snd (shouldVisitChild g D G)"
  shows
    "(deferred (heap g G) = None \<and> shouldDeferDependency (heap g D) (sideEffects ag) \<longrightarrow>
        hasDeferred (heap g' r) =
          (if r = D \<or> r \<in> mark_reach g D \<and>
                (ntype (heap g r) = T_asset \<or> ntype (heap g r) = T_asset_group)
           then Some True else hasDeferred (heap g r))) \<and>
     (deferred (heap g G) = Some True \<and> \<not> shouldDeferDependency (heap g D) (sideEffects ag) \<and>
        r \<noteq> D \<longrightarrow>
        (hasDeferred (heap g' r) = hasDeferred (heap g r) \<or> hasDeferred (heap g' r) = None) \<and>
        (r \<notin> mark_reach g D \<or> (ntype (heap g r) \<noteq> T_asset \<and> ntype (heap g r) \<noteq> T_asset_group) \<longrightarrow>
           hasDeferred (heap g' r) = hasDeferred (heap g r)) \<and>
        (r \<in> mark_reach g D \<and> ntype (heap g r) = T_asset \<longrightarrow>
           (\<not> other_child_flagged g D r \<longrightarrow> hasDeferred (heap g' r) = None) \<and>
           (other_plain_child_flagged g D r \<longrightarrow> hasDeferred (heap g' r) = hasDeferred (heap g r))) \<and>
        (r \<in> mark_reach g D \<and> ntype (heap g r) = T_asset_group \<longrightarrow>
           ((\<forall>w. walked_asset g D r w \<longrightarrow> \<not> other_child_flagged g D w) \<longrightarrow>
              hasDeferred (heap g' r) = None) \<and>
           (r \<notin> set (getNodesConnectedTo g D) \<and>
            (\<forall>w. walked_asset g D r w \<longrightarrow> other_plain_child_flagged g D w) \<longrightarrow>
              hasDeferred (heap g' r) = hasDeferred (heap g r))))"
proof -
  define dfr where "dfr = shouldDeferDependency (heap g D) (sideEffects ag)"
  define g2 where "g2 = set_deferred G (Some dfr) (set_hasDeferred D (Some dfr) g)"
  have DG: "D \<noteq> G" using D G by auto
  have tyD: "ntype (heap g2 D) = T_dependency"
    using D unfolding g2_def by (simp add: flag_writes(4) del: ntype.simps)
  have ty: "\<And>x. ntype (heap g2 x) = ntype (heap g x)"
    unfolding g2_def by (simp add: flag_writes(4) del: ntype.simps)
  have par: "getNodesConnectedTo g2 = getNodesConnectedTo g"
    unfolding g2_def by (intro ext) (simp add: getNodesConnectedTo_def flag_writes(1,2))
  have chi: "getNodesConnectedFrom g2 = getNodesConnectedFrom g"
    unfolding g2_def by (intro ext) (simp add: getNodesConnectedFrom_def flag_writes(1,3))
  have mr: "mark_reach g2 D = mark_reach g D"
    using par ty by (rule mark_reach_eq)
  have hd: "\<And>c. hasDeferred (heap g2 c) = (if c = D then Some dfr else hasDeferred (heap g c))"
    using DG unfolding g2_def by (simp add: flag_writes(5))
  have sv: "shouldVisitChild g D G =
      (\<not> dfr,
       if deferred (heap g G) \<noteq> Some True \<and> dfr then markParentsWithHasDeferred g2 D
       else if deferred (heap g G) = Some True \<and> \<not> dfr then unmarkParentsWithHasDeferred g2 D
       else g2)" if "deferred (heap g G) \<noteq> Some False"
    using D G that unfolding g2_def dfr_def
    by (simp add: shouldVisitChild_def Let_def)
  show ?thesis
  proof (intro conjI impI)
    assume a: "deferred (heap g G) = None \<and> shouldDeferDependency (heap g D) (sideEffects ag)"
    then have "g' = markParentsWithHasDeferred g2 D"
      using sv by (simp add: dfr_def g')
    then show "hasDeferred (heap g' r) =
          (if r = D \<or> r \<in> mark_reach g D \<and>
                (ntype (heap g r) = T_asset \<or> ntype (heap g r) = T_asset_group)
           then Some True else hasDeferred (heap g r))"
    proof (cases "r = D")
      case True
      have "hasDeferred (heap (markParentsWithHasDeferred g2 D) D) = hasDeferred (heap g2 D)"
        using markParents_heap[OF tyD, of D] tyD by (simp del: ntype.simps)
      then show ?thesis using True hd a \<open>g' = markParentsWithHasDeferred g2 D\<close> by (simp add: dfr_def)
    next
      case False
      then have "hasDeferred (heap g2 r) = hasDeferred (heap g r)" using hd by simp
      then show ?thesis
        using markParents_heap[OF tyD, of r] False \<open>g' = markParentsWithHasDeferred g2 D\<close>
        by (auto simp: mr ty simp del: ntype.simps)
    qed
  next
    assume a: "deferred (heap g G) = Some True \<and>
      \<not> shouldDeferDependency (heap g D) (sideEffects ag) \<and> r \<noteq> D"
    then have ndfr: "\<not> dfr" and rD: "r \<noteq> D" by (simp_all add: dfr_def)
    have s: "g' = unmarkParentsWithHasDeferred g2 D"
      using sv a ndfr by (simp add: g')
    note h = unmarkParents_heap[OF tyD, of r, folded s]
    have hr: "hasDeferred (heap g2 r) = hasDeferred (heap g r)" using hd rD by simp
    have cf: "\<And>v. child_flagged g2 v = other_child_flagged g D v"
      using ndfr by (auto simp: child_flagged_def other_child_flagged_def chi hd list_ex_iff)
    have pf: "\<And>v. plain_child_flagged g2 v = other_plain_child_flagged g D v"
      using ndfr
      by (auto simp: plain_child_flagged_def other_plain_child_flagged_def chi hd ty list_ex_iff
          simp del: ntype.simps)
    have wa: "\<And>n w. walked_asset g2 D n w = walked_asset g D n w"
      by (simp add: walked_asset_def mr ty par del: ntype.simps)
    show "hasDeferred (heap g' r) = hasDeferred (heap g r) \<or> hasDeferred (heap g' r) = None"
      using h(1) hr by simp
    show "hasDeferred (heap g' r) = hasDeferred (heap g r)"
      if "r \<notin> mark_reach g D \<or> (ntype (heap g r) \<noteq> T_asset \<and> ntype (heap g r) \<noteq> T_asset_group)"
      using h(2) that hr by (simp add: mr ty del: ntype.simps)
    show "hasDeferred (heap g' r) = None"
      if "r \<in> mark_reach g D \<and> ntype (heap g r) = T_asset" "\<not> other_child_flagged g D r"
      using h(3) that by (simp add: mr ty cf del: ntype.simps)
    show "hasDeferred (heap g' r) = hasDeferred (heap g r)"
      if "r \<in> mark_reach g D \<and> ntype (heap g r) = T_asset" "other_plain_child_flagged g D r"
      using h(4) that hr by (simp add: mr ty pf del: ntype.simps)
    show "hasDeferred (heap g' r) = None"
      if "r \<in> mark_reach g D \<and> ntype (heap g r) = T_asset_group"
        "\<forall>w. walked_asset g D r w \<longrightarrow> \<not> other_child_flagged g D w"
    proof -
      have "group_ok g2 D g' r" using h(5) that(1) by (simp add: mr ty del: ntype.simps)
      then show ?thesis using that(2) unfolding group_ok_def wa cf by blast
    qed
    show "hasDeferred (heap g' r) = hasDeferred (heap g r)"
      if "r \<in> mark_reach g D \<and> ntype (heap g r) = T_asset_group"
        "r \<notin> set (getNodesConnectedTo g D) \<and>
         (\<forall>w. walked_asset g D r w \<longrightarrow> other_plain_child_flagged g D w)"
    proof -
      have "group_ok g2 D g' r" using h(5) that(1) by (simp add: mr ty del: ntype.simps)
      then have "heap g' r = heap g2 r"
        using that(2) unfolding group_ok_def wa pf par by blast
      then show ?thesis using hr by simp
    qed
  qed
qed

text \<open>\<open>ex_sibling\<close>: \<open>ex_marked\<close> with a second dependency d2 of the Asset a, still flagged.\<close>

definition ex_sibling :: asset_graph where
  "ex_sibling =
     ex_marked\<lparr>heap := (heap ex_marked)
                 (6 := (nodeFromDep (ex_dep ''d2''))\<lparr>hasDeferred := Some True\<rparr>),
               nextRef := 7,
               nodes := (nodes ex_marked)(''d2'' \<mapsto> 6),
               edges := edges ex_marked @ [(''a'', ''d2'')]\<rparr>"

lemmas walk_eval = getNodesConnectedTo_def getNodesConnectedFrom_def adjacent_def inbound_def
  outbound_def node_key_def

lemma ex_walks:
  "getNodesConnectedTo ex_chain 4 = [3]" "getNodesConnectedTo ex_chain 3 = [2]"
  "getNodesConnectedTo ex_marked 4 = [3]" "getNodesConnectedTo ex_marked 3 = [2]"
  "getNodesConnectedTo ex_sibling 4 = [3]" "getNodesConnectedTo ex_sibling 3 = [2]"
  "getNodesConnectedFrom ex_marked 3 = [4]" "getNodesConnectedFrom ex_sibling 3 = [4, 6]"
  by (simp_all add: ex_defs ex_sibling_def walk_eval)

lemma ex_types:
  "ntype (heap ex_chain 3) = T_asset" "ntype (heap ex_chain 2) = T_asset_group"
  "ntype (heap ex_marked 3) = T_asset" "ntype (heap ex_marked 2) = T_asset_group"
  "ntype (heap ex_sibling 3) = T_asset" "ntype (heap ex_sibling 2) = T_asset_group"
  "ntype (heap ex_chain 0) = T_asset"
  by (simp_all add: ex_defs ex_sibling_def)

lemma ex_reach:
  assumes "getNodesConnectedTo g 4 = [3]" "getNodesConnectedTo g 3 = [2]"
    "ntype (heap g 2) = T_asset_group"
  shows "3 \<in> mark_reach g 4" and "ntype (heap g 3) = T_asset \<Longrightarrow> 2 \<in> mark_reach g 4"
    and "r \<in> mark_reach g 4 \<Longrightarrow> r = 3 \<or> r = 2"
proof -
  show 3: "3 \<in> mark_reach g 4" by (rule mark_reach.parent) (simp add: assms)
  show "2 \<in> mark_reach g 4" if "ntype (heap g 3) = T_asset"
    by (rule mark_reach.climb[OF 3 that]) (simp add: assms)
  show "r = 3 \<or> r = 2" if "r \<in> mark_reach g 4"
    using that
  proof (induction rule: mark_reach.induct)
    case (parent p)
    then show ?case by (simp add: assms)
  next
    case (climb a p)
    then show ?case using assms by (auto simp del: ntype.simps)
  qed
qed

theorem deferral_transition_flags_witness:
  "hasDeferred (heap (snd (shouldVisitChild ex_chain 4 5)) 3) = Some True \<and>
   hasDeferred (heap (snd (shouldVisitChild ex_chain 4 5)) 2) = Some True \<and>
   hasDeferred (heap (snd (shouldVisitChild ex_chain 4 5)) 0) = None \<and>
   hasDeferred (heap (snd (shouldVisitChild ex_marked 4 5)) 3) = None \<and>
   hasDeferred (heap (snd (shouldVisitChild ex_marked 4 5)) 2) = None \<and>
   hasDeferred (heap (snd (shouldVisitChild ex_sibling 4 5)) 3) = Some True \<and>
   hasDeferred (heap (snd (shouldVisitChild ex_sibling 4 5)) 2) = Some True"
proof -
  have D: "ntype (heap ex_chain 4) = T_dependency" "ntype (heap ex_marked 4) = T_dependency"
    "ntype (heap ex_sibling 4) = T_dependency"
    by (simp_all add: ex_defs ex_sibling_def)
  have G: "node_value (heap ex_chain 5) = AssetGroupValue (ex_group ''g'')"
    "node_value (heap ex_marked 5) = AssetGroupValue (ex_group ''g'')"
    "node_value (heap ex_sibling 5) = AssetGroupValue (ex_group ''g'')"
    by (simp_all add: ex_defs ex_sibling_def)
  note rc = ex_reach[OF ex_walks(1,2) ex_types(2)]
  note rm = ex_reach[OF ex_walks(3,4) ex_types(4)]
  note rs = ex_reach[OF ex_walks(5,6) ex_types(6)]
  have pre1: "deferred (heap ex_chain 5) = None"
    "shouldDeferDependency (heap ex_chain 4) (sideEffects (ex_group ''g''))"
    "hasDeferred (heap ex_chain 0) = None"
    by (simp_all add: ex_defs shouldDeferDependency_def)
  have pre2: "deferred (heap ex_marked 5) = Some True"
    "\<not> shouldDeferDependency (heap ex_marked 4) (sideEffects (ex_group ''g''))"
    "deferred (heap ex_sibling 5) = Some True"
    "\<not> shouldDeferDependency (heap ex_sibling 4) (sideEffects (ex_group ''g''))"
    "hasDeferred (heap ex_sibling 3) = Some True" "hasDeferred (heap ex_sibling 2) = Some True"
    by (simp_all add: ex_defs ex_sibling_def shouldDeferDependency_def)
  have m3: "\<not> other_child_flagged ex_marked 4 3"
    by (simp add: other_child_flagged_def ex_walks)
  have s3: "other_plain_child_flagged ex_sibling 4 3"
    by (simp add: other_plain_child_flagged_def ex_walks) (simp add: ex_defs ex_sibling_def)
  have m2: "\<forall>w. walked_asset ex_marked 4 2 w \<longrightarrow> \<not> other_child_flagged ex_marked 4 w"
  proof (intro allI impI)
    fix w assume "walked_asset ex_marked 4 2 w"
    then have "w \<in> mark_reach ex_marked 4" "ntype (heap ex_marked w) = T_asset"
      by (simp_all add: walked_asset_def del: ntype.simps)
    then have "w = 3" using rm(3)[of w] ex_types(4) by (auto simp del: ntype.simps)
    then show "\<not> other_child_flagged ex_marked 4 w" using m3 by simp
  qed
  have s2: "2 \<notin> set (getNodesConnectedTo ex_sibling 4) \<and>
      (\<forall>w. walked_asset ex_sibling 4 2 w \<longrightarrow> other_plain_child_flagged ex_sibling 4 w)"
  proof (intro conjI allI impI)
    show "2 \<notin> set (getNodesConnectedTo ex_sibling 4)" by (simp add: ex_walks)
    fix w assume "walked_asset ex_sibling 4 2 w"
    then have "w \<in> mark_reach ex_sibling 4" "ntype (heap ex_sibling w) = T_asset"
      by (simp_all add: walked_asset_def del: ntype.simps)
    then have "w = 3" using rs(3)[of w] ex_types(6) by (auto simp del: ntype.simps)
    then show "other_plain_child_flagged ex_sibling 4 w" using s3 by simp
  qed
  have c0: "0 \<notin> mark_reach ex_chain 4" using rc(3)[of 0] by auto
  show ?thesis
    using deferral_transition_flags[OF D(1) G(1) refl, of 3]
      deferral_transition_flags[OF D(1) G(1) refl, of 2]
      deferral_transition_flags[OF D(1) G(1) refl, of 0]
      deferral_transition_flags[OF D(2) G(2) refl, of 3]
      deferral_transition_flags[OF D(2) G(2) refl, of 2]
      deferral_transition_flags[OF D(3) G(3) refl, of 3]
      deferral_transition_flags[OF D(3) G(3) refl, of 2]
      pre1 pre2 rc(1) rc(2)[OF ex_types(1)] rm(1) rm(2)[OF ex_types(3)] rs(1) rs(2)[OF ex_types(5)]
      ex_types m3 s3 m2 s2 c0
    by (simp del: ntype.simps)
qed

text \<open>
  The claim as stated fails on the chain: after d is deferred into g, the Asset a0 at the
  top has the deferred edge from d to g among its descendants, and no \<^verbatim>\<open>hasDeferred\<close>.
\<close>

theorem hasDeferred_invariant_counterexample:
  "ntype (heap ex_chain 4) = T_dependency \<and> ntype (heap ex_chain 5) = T_asset_group \<and>
   deferred (heap ex_chain 5) = None \<and>
   fst (shouldVisitChild ex_chain 4 5) = False \<and>
   ntype (heap (snd (shouldVisitChild ex_chain 4 5)) 0) = T_asset \<and>
   deferred_edge_below (snd (shouldVisitChild ex_chain 4 5)) 0 \<and>
   hasDeferred (heap (snd (shouldVisitChild ex_chain 4 5)) 0) = None"
  by (simp add: ex_defs eval_defs)

section \<open>Symbol usage propagator\<close>

text \<open>
  Modelled from the spec: \<^verbatim>\<open>Graph.findAncestors\<close>, section 4.2: walks all ancestors and
  collects those matching the predicate, in visiting order; the walk goes on past a match.
\<close>

definition findAncestors :: "asset_graph \<Rightarrow> ref \<Rightarrow> (node \<Rightarrow> bool) \<Rightarrow> ref list" where
  "findAncestors g node fn =
     filter (\<lambda>r. fn (heap g r)) (fst (traverseAncestors g node plain_visit ()))"

text \<open>\<^verbatim>\<open>getIncomingDependencies\<close>, lines 406 to 418.\<close>

definition getIncomingDependencies :: "asset_graph \<Rightarrow> asset \<Rightarrow> dependency list" where
  "getIncomingDependencies g a =
     (case nodes g (asset_id a) of
        None \<Rightarrow> []
      | Some node \<Rightarrow>
          [d. r \<leftarrow> findAncestors g node (\<lambda>n. ntype n = T_dependency),
              DependencyValue d \<leftarrow> [node_value (heap g r)]])"

fun map_result :: "('a \<Rightarrow> error + 'b) \<Rightarrow> 'a list \<Rightarrow> error + 'b list" where
  "map_result f [] = Inr []"
| "map_result f (x # xs) =
     (case f x of
        Inl e \<Rightarrow> Inl e
      | Inr y \<Rightarrow> (case map_result f xs of Inl e \<Rightarrow> Inl e | Inr ys \<Rightarrow> Inr (y # ys)))"

text \<open>Lines 270 to 274: the graph's node of each incoming dependency.\<close>

definition incomingDeps :: "asset_graph \<Rightarrow> asset \<Rightarrow> error + ref list" where
  "incomingDeps g a =
     map_result
       (\<lambda>d. case nodes g (dep_id d) of
              None \<Rightarrow> Inl InvariantFailed
            | Some n \<Rightarrow> if ntype (heap g n) = T_dependency then Inr n else Inl InvariantFailed)
       (getIncomingDependencies g a)"

text \<open>
  Lines 277 to 281: the inverse' table, from a local name to the export declared last
  with it (the \<^verbatim>\<open>Map\<close> constructor overwrites).
\<close>

definition assetSymbolsInverse :: "(string \<times> symbol) list \<Rightarrow> (string \<rightharpoonup> string)" where
  "assetSymbolsInverse syms = foldl (\<lambda>m (key, val). m(local_name val \<mapsto> key)) Map.empty syms"

text \<open>\<^verbatim>\<open>assetSymbols?.has(exportSymbol)\<close>.\<close>

definition assetSymbols_has :: "(string \<times> symbol) list option \<Rightarrow> string \<Rightarrow> bool" where
  "assetSymbols_has syms e = (case syms of None \<Rightarrow> False | Some m \<Rightarrow> e \<in> fst ` set m)"

text \<open>
  Lines 286 to 305, the inner loop over one incoming dependency's used symbols: the pair
  is (\<^verbatim>\<open>assetUsedSymbols\<close>, \<^verbatim>\<open>reexportedSymbols\<close>); the wildcard ends the loop.
\<close>

fun incoming_symbols ::
    "(string \<times> symbol) list option \<Rightarrow> string list \<Rightarrow> string list \<times> string list \<Rightarrow>
     string list \<times> string list" where
  "incoming_symbols syms [] acc = acc"
| "incoming_symbols syms (exportSymbol # rest) (used, reexported) =
     (if exportSymbol = ''*'' then (set_add ''*'' used, set_add ''*'' reexported)
      else if assetSymbols_has syms exportSymbol
      then incoming_symbols syms rest (set_add exportSymbol used, reexported)
      else incoming_symbols syms rest (used, set_add exportSymbol reexported))"

text \<open>Lines 285 to 306, the loop over the incoming dependencies.\<close>

definition incoming_loop ::
    "asset_graph \<Rightarrow> (string \<times> symbol) list option \<Rightarrow> ref list \<Rightarrow> string list \<times> string list" where
  "incoming_loop g syms deps =
     foldl (\<lambda>acc n. incoming_symbols syms (usedSymbols (heap g n)) acc) ([], []) deps"

text \<open>
  Lines 315 to 329, one (symbol, local) entry of an outgoing dependency without a
  wildcard binding: the pair is (\<^verbatim>\<open>dep.usedSymbols\<close>, \<^verbatim>\<open>assetUsedSymbols\<close>).
\<close>

definition outgoing_binding ::
    "(string \<rightharpoonup> string) option \<Rightarrow> string set \<Rightarrow> string \<times> symbol \<Rightarrow>
     string list \<times> string list \<Rightarrow> string list \<times> string list" where
  "outgoing_binding inverse' weak b st =
     (case (b, st) of
        ((name, binding), (depUsed, assetUsed)) \<Rightarrow>
          (case inverse' of
             None \<Rightarrow> (set_add name depUsed, assetUsed)
           | Some table \<Rightarrow>
               if name \<notin> weak then (set_add name depUsed, assetUsed)
               else
                 (case table (local_name binding) of
                    None \<Rightarrow> (set_add name depUsed, assetUsed)
                  | Some reexport \<Rightarrow>
                      if ''*'' \<in> set assetUsed \<or> reexport \<in> set assetUsed
                      then (set_add name depUsed, removeAll reexport assetUsed)
                      else (depUsed, assetUsed))))"

text \<open>\<^verbatim>\<open>dep.value.symbols.get('*')?.local === '*'\<close>, line 309.\<close>

definition wildcard_binding :: "dependency \<Rightarrow> bool" where
  "wildcard_binding d =
     (case map_of (dep_symbols d) ''*'' of None \<Rightarrow> False | Some binding \<Rightarrow> local_name binding = ''*'')"

text \<open>Lines 315 to 329, the loop over the entries of \<^verbatim>\<open>dep.value.symbols\<close>.\<close>

definition bindings_loop ::
    "(string \<rightharpoonup> string) option \<Rightarrow> string set \<Rightarrow> (string \<times> symbol) list \<Rightarrow>
     string list \<times> string list \<Rightarrow> string list \<times> string list" where
  "bindings_loop inverse' weak bs st = foldl (\<lambda>st b. outgoing_binding inverse' weak b st) st bs"

text \<open>Lines 309 to 330, one outgoing dependency.\<close>

definition outgoing_dep ::
    "(string \<rightharpoonup> string) option \<Rightarrow> string list \<Rightarrow> dependency \<Rightarrow>
     string list \<times> string list \<Rightarrow> string list \<times> string list" where
  "outgoing_dep inverse' reexported d st =
     (if wildcard_binding d then (foldl (\<lambda>u s. set_add s u) (fst st) reexported, snd st)
      else bindings_loop inverse' (weakSymbols d) (dep_symbols d) st)"

text \<open>
  Lines 308 to 331, the loop over the outgoing dependency nodes; each step writes the
  node's \<^verbatim>\<open>usedSymbols\<close>. A node that is not a Dependency is outside the parameter's
  type (\<^verbatim>\<open>DependencyNode\<close>).
\<close>

fun outgoing_loop ::
    "(string \<rightharpoonup> string) option \<Rightarrow> string list \<Rightarrow> ref list \<Rightarrow> asset_graph \<times> string list \<Rightarrow>
     error + asset_graph \<times> string list" where
  "outgoing_loop inverse' reexported [] st = Inr st"
| "outgoing_loop inverse' reexported (r # rs) (g, assetUsed) =
     (case node_value (heap g r) of
        DependencyValue d \<Rightarrow>
          (case outgoing_dep inverse' reexported d (usedSymbols (heap g r), assetUsed) of
             (depUsed, assetUsed') \<Rightarrow>
               outgoing_loop inverse' reexported rs
                 (g\<lparr>heap := (heap g)(r := (heap g r)\<lparr>usedSymbols := depUsed\<rparr>)\<rparr>, assetUsed'))
      | _ \<Rightarrow> Inl IllTyped)"


text \<open>
  \<^verbatim>\<open>setUsedSymbolsAsset\<close>, lines 266 to 333. A first argument that is not an Asset node
  is outside the parameter's type (\<^verbatim>\<open>AssetNode\<close>).
\<close>

definition setUsedSymbolsAsset :: "asset_graph \<Rightarrow> ref \<Rightarrow> ref list \<Rightarrow> error + asset_graph" where
  "setUsedSymbolsAsset g assetNode outgoingDeps =
     (case node_value (heap g assetNode) of
        AssetValue a \<Rightarrow>
          (case incomingDeps g a of
             Inl e \<Rightarrow> Inl e
           | Inr deps \<Rightarrow>
               (case incoming_loop g (asset_symbols a) deps of
                  (assetUsed, reexported) \<Rightarrow>
                    (case outgoing_loop (map_option assetSymbolsInverse (asset_symbols a)) reexported
                            outgoingDeps (g, assetUsed) of
                       Inl e \<Rightarrow> Inl e
                     | Inr (g', assetUsed') \<Rightarrow>
                         Inr (g'\<lparr>heap := (heap g')
                                (assetNode := (heap g' assetNode)\<lparr>usedSymbols := assetUsed'\<rparr>)\<rparr>))))
      | _ \<Rightarrow> Inl IllTyped)"

section \<open>Properties of the symbol usage propagator\<close>

lemma set_set_add [simp]: "set (set_add x xs) = insert x (set xs)"
  by (auto simp: set_add_def)

lemma outgoing_binding_fst:
  "set (fst st) \<subseteq> set (fst (outgoing_binding inv' weak b st)) \<and>
   set (fst (outgoing_binding inv' weak b st)) \<subseteq> insert (fst b) (set (fst st))"
  by (cases b; cases st) (auto simp: outgoing_binding_def split: option.splits)

lemma outgoing_binding_snd:
  "set (snd (outgoing_binding inv' weak b st)) \<subseteq> set (snd st)"
  by (cases b; cases st) (auto simp: outgoing_binding_def split: option.splits)

lemma bindings_loop_Nil [simp]: "bindings_loop inv' weak [] st = st"
  by (simp add: bindings_loop_def)

lemma bindings_loop_Cons [simp]:
  "bindings_loop inv' weak (b # bs) st = bindings_loop inv' weak bs (outgoing_binding inv' weak b st)"
  by (simp add: bindings_loop_def)

lemma bindings_loop_append [simp]:
  "bindings_loop inv' weak (xs @ ys) st = bindings_loop inv' weak ys (bindings_loop inv' weak xs st)"
  by (simp add: bindings_loop_def)

lemma bindings_loop_fst:
  "set (fst st) \<subseteq> set (fst (bindings_loop inv' weak bs st)) \<and>
   set (fst (bindings_loop inv' weak bs st)) \<subseteq> set (fst st) \<union> fst ` set bs"
proof (induction bs arbitrary: st)
  case Nil
  show ?case by simp
next
  case (Cons b bs)
  show ?case
    using Cons.IH[of "outgoing_binding inv' weak b st"] outgoing_binding_fst[of st inv' weak b]
    by auto
qed

lemma bindings_loop_snd:
  "set (snd (bindings_loop inv' weak bs st)) \<subseteq> set (snd st)"
proof (induction bs arbitrary: st)
  case Nil
  show ?case by simp
next
  case (Cons b bs)
  show ?case
    using Cons.IH[of "outgoing_binding inv' weak b st"] outgoing_binding_snd[of inv' weak b st]
    by auto
qed

text \<open>
  One entry \<open>(name, binding)\<close> of the symbol table (a \<^verbatim>\<open>Map\<close>, so with distinct keys) of
  an outgoing dependency without a wildcard-to-wildcard binding: what the loop of lines
  315 to 329 leaves in \<^verbatim>\<open>dep.usedSymbols\<close>, and what the entry does to the asset's used set
  (\<open>W\<close> before the entry, \<open>W'\<close> after it).
\<close>

lemma outgoing_entry:
  fixes inv' :: "(string \<rightharpoonup> string) option" and depUsed assetUsed reexported :: "string list"
  assumes nw: "\<not> wildcard_binding d"
    and split: "dep_symbols d = pre @ (name, binding) # post"
    and dist: "distinct (map fst (dep_symbols d))"
  defines "W \<equiv> snd (bindings_loop inv' (weakSymbols d) pre (depUsed, assetUsed))"
    and "W' \<equiv> snd (bindings_loop inv' (weakSymbols d) (pre @ [(name, binding)]) (depUsed, assetUsed))"
    and "after \<equiv> outgoing_dep inv' reexported d (depUsed, assetUsed)"
  shows "inv' = None \<or> name \<notin> weakSymbols d \<Longrightarrow> name \<in> set (fst after) \<and> W' = W"
    and "inv' = Some table \<Longrightarrow> name \<in> weakSymbols d \<Longrightarrow>
           (name \<in> set (fst after) \<longleftrightarrow>
              name \<in> set depUsed \<or> table (local_name binding) = None \<or> ''*'' \<in> set W \<or>
              (\<exists>x. table (local_name binding) = Some x \<and> x \<in> set W)) \<and>
           W' = (case table (local_name binding) of
                   None \<Rightarrow> W
                 | Some x \<Rightarrow> if ''*'' \<in> set W \<or> x \<in> set W then removeAll x W else W)"
    and "set (snd after) \<subseteq> set W'"
    and "post = [] \<Longrightarrow> snd after = W'"
proof -
  define before where "before = bindings_loop inv' (weakSymbols d) pre (depUsed, assetUsed)"
  define step where "step = outgoing_binding inv' (weakSymbols d) (name, binding) before"
  have W: "W = snd before" by (simp add: W_def before_def)
  have W': "W' = snd step" by (simp add: W'_def step_def before_def)
  have after: "after = bindings_loop inv' (weakSymbols d) post step"
    using nw split by (simp add: after_def outgoing_dep_def step_def before_def)
  have npre: "name \<notin> fst ` set pre" and npost: "name \<notin> fst ` set post"
    using dist split by auto
  have b: "name \<in> set (fst before) \<longleftrightarrow> name \<in> set depUsed"
    using bindings_loop_fst[of "(depUsed, assetUsed)" inv' "weakSymbols d" pre] npre
    unfolding before_def by auto
  have a: "name \<in> set (fst after) \<longleftrightarrow> name \<in> set (fst step)"
    using bindings_loop_fst[of step inv' "weakSymbols d" post] npost unfolding after by auto
  show "set (snd after) \<subseteq> set W'"
    unfolding after W' by (rule bindings_loop_snd)
  show "snd after = W'" if "post = []"
    using that by (simp add: after W')
  show "name \<in> set (fst after) \<and> W' = W" if "inv' = None \<or> name \<notin> weakSymbols d"
    using that a unfolding W W' step_def
    by (cases before) (auto simp: outgoing_binding_def split: option.splits)
  show "(name \<in> set (fst after) \<longleftrightarrow>
              name \<in> set depUsed \<or> table (local_name binding) = None \<or> ''*'' \<in> set W \<or>
              (\<exists>x. table (local_name binding) = Some x \<and> x \<in> set W)) \<and>
           W' = (case table (local_name binding) of
                   None \<Rightarrow> W
                 | Some x \<Rightarrow> if ''*'' \<in> set W \<or> x \<in> set W then removeAll x W else W)"
    if "inv' = Some table" "name \<in> weakSymbols d"
    using that a b unfolding W W' step_def
    by (cases before) (auto simp: outgoing_binding_def split: option.splits)
qed














lemma outgoing_dep_snd:
  "set (snd (outgoing_dep inv' reexported d st)) \<subseteq> set (snd st)"
  by (simp add: outgoing_dep_def bindings_loop_snd)


lemma foldl_set_add: "set (foldl (\<lambda>u s. set_add s u) u xs) = set u \<union> set xs"
  by (induction xs arbitrary: u) auto

lemma outgoing_dep_fst:
  "set (fst st) \<subseteq> set (fst (outgoing_dep inv' reexported d st))"
  using bindings_loop_fst[of st inv' "weakSymbols d" "dep_symbols d"]
  by (auto simp: outgoing_dep_def foldl_set_add)

lemma outgoing_dep_wildcard:
  "wildcard_binding d \<Longrightarrow> set (fst (outgoing_dep inv' reexported d st)) = set (fst st) \<union> set reexported"
  by (simp add: outgoing_dep_def foldl_set_add)


text \<open>
  \<open>used_only g g'\<close>: \<open>g'\<close> is \<open>g\<close> but for \<^verbatim>\<open>usedSymbols\<close> fields.
\<close>

definition used_only :: "asset_graph \<Rightarrow> asset_graph \<Rightarrow> bool" where
  "used_only g g' \<longleftrightarrow>
     g'\<lparr>heap := heap g\<rparr> = g \<and>
     (\<forall>x. (heap g' x)\<lparr>usedSymbols := []\<rparr> = (heap g x)\<lparr>usedSymbols := []\<rparr>)"

lemma used_only_refl: "used_only g g"
  by (simp add: used_only_def)

lemma used_only_trans:
  assumes "used_only g g1" and "used_only g1 g2"
  shows "used_only g g2"
proof -
  have "g2\<lparr>heap := heap g\<rparr> = (g2\<lparr>heap := heap g1\<rparr>)\<lparr>heap := heap g\<rparr>" by simp
  also have "\<dots> = g1\<lparr>heap := heap g\<rparr>" using assms(2) by (simp only: used_only_def)
  also have "\<dots> = g" using assms(1) by (simp only: used_only_def)
  finally show ?thesis using assms by (simp add: used_only_def)
qed

lemma used_only_write:
  "used_only g (g\<lparr>heap := (heap g)(r := (heap g r)\<lparr>usedSymbols := u\<rparr>)\<rparr>)"
  by (simp add: used_only_def)

lemma used_only_value: "used_only g g' \<Longrightarrow> node_value (heap g' x) = node_value (heap g x)"
proof -
  assume "used_only g g'"
  then have "(heap g' x)\<lparr>usedSymbols := []\<rparr> = (heap g x)\<lparr>usedSymbols := []\<rparr>"
    by (simp add: used_only_def)
  then have "node_value ((heap g' x)\<lparr>usedSymbols := []\<rparr>) = node_value ((heap g x)\<lparr>usedSymbols := []\<rparr>)"
    by (simp only:)
  then show ?thesis by simp
qed

lemma outgoing_loop_props:
  "outgoing_loop inv' re outs (g, au) = Inr (g', au') \<Longrightarrow>
   used_only g g' \<and>
   (\<forall>x. set (usedSymbols (heap g x)) \<subseteq> set (usedSymbols (heap g' x))) \<and>
   set au' \<subseteq> set au \<and>
   (\<forall>r\<in>set outs. \<forall>d. node_value (heap g r) = DependencyValue d \<and> wildcard_binding d \<longrightarrow>
       set re \<subseteq> set (usedSymbols (heap g' r)))"
proof (induction outs arbitrary: g au)
  case Nil
  then show ?case by (simp add: used_only_refl)
next
  case (Cons r rs)
  from Cons.prems obtain d where d: "node_value (heap g r) = DependencyValue d"
    by (cases "node_value (heap g r)") simp_all
  obtain du au1 where od: "outgoing_dep inv' re d (usedSymbols (heap g r), au) = (du, au1)"
    by (cases "outgoing_dep inv' re d (usedSymbols (heap g r), au)")
  define g1 where "g1 = g\<lparr>heap := (heap g)(r := (heap g r)\<lparr>usedSymbols := du\<rparr>)\<rparr>"
  have rec: "outgoing_loop inv' re rs (g1, au1) = Inr (g', au')"
    using Cons.prems d od by (simp add: g1_def)
  note IH = Cons.IH[OF rec]
  have uo1: "used_only g g1" unfolding g1_def by (rule used_only_write)
  have uo: "used_only g g'" using used_only_trans[OF uo1] IH by blast
  have du: "set (usedSymbols (heap g r)) \<subseteq> set du"
    using outgoing_dep_fst[of "(usedSymbols (heap g r), au)" inv' re d] od by simp
  have g1u: "\<And>x. set (usedSymbols (heap g x)) \<subseteq> set (usedSymbols (heap g1 x))"
    using du by (simp add: g1_def)
  have grow: "\<forall>x. set (usedSymbols (heap g x)) \<subseteq> set (usedSymbols (heap g' x))"
    using g1u IH by blast
  have au: "set au' \<subseteq> set au"
    using outgoing_dep_snd[of inv' re d "(usedSymbols (heap g r), au)"] od IH by auto
  have val1: "\<And>x. node_value (heap g1 x) = node_value (heap g x)"
    by (rule used_only_value[OF uo1])
  have wild: "set re \<subseteq> set (usedSymbols (heap g' x))"
    if "x \<in> set (r # rs)" "node_value (heap g x) = DependencyValue d'" "wildcard_binding d'" for x d'
  proof (cases "x = r")
    case True
    then have "d' = d" using that(2) d by simp
    then have "set re \<subseteq> set du"
      using outgoing_dep_wildcard[of d inv' re "(usedSymbols (heap g r), au)"] that(3) od by simp
    moreover have "usedSymbols (heap g1 r) = du" by (simp add: g1_def)
    ultimately show ?thesis using IH True by (metis subset_trans)
  next
    case False
    then have "x \<in> set rs" using that(1) by simp
    then show ?thesis using IH that(2,3) val1 by auto
  qed
  show ?case using uo grow au wild by blast
qed




text \<open>
  An Asset A that exports \<open>a\<close>, with an incoming Dependency that uses \<open>a\<close> and then the
  wildcard, and an outgoing Dependency with a wildcard-to-wildcard binding; and a
  Dependency with two weak bindings of the same local name.
\<close>

definition ex_sym :: asset_graph where
  "ex_sym =
     \<lparr>heap = (\<lambda>_. (nodeFromDep (ex_dep ''din''))\<lparr>usedSymbols := [''a'', ''*'']\<rparr>)
        (1 := nodeFromAsset ((ex_asset ''A'')\<lparr>asset_symbols := Some [(''a'', \<lparr>local_name = ''la''\<rparr>)]\<rparr>),
         2 := nodeFromDep ((ex_dep ''dout'')\<lparr>dep_symbols := [(''*'', \<lparr>local_name = ''*''\<rparr>)]\<rparr>)),
      nextRef = 3,
      nodes = [''din'' \<mapsto> 0, ''A'' \<mapsto> 1, ''dout'' \<mapsto> 2],
      edges = [(''din'', ''A''), (''A'', ''dout'')],
      rootNodeId = None, hash = None, onNodeRemoved = False, observed = []\<rparr>"

definition ex_weak_dep :: dependency where
  "ex_weak_dep =
     (ex_dep ''dw'')\<lparr>dep_symbols := [(''x'', \<lparr>local_name = ''la''\<rparr>), (''y'', \<lparr>local_name = ''la''\<rparr>)],
                    weakSymbols := {''x'', ''y''}\<rparr>"

lemmas sym_defs = ex_sym_def ex_weak_dep_def nodeFromDep_def nodeFromAsset_def ex_asset_def ex_dep_def

lemmas sym_eval = setUsedSymbolsAsset_def incomingDeps_def getIncomingDependencies_def
  findAncestors_def traverseAncestors_def dfs.simps inbound_def node_key_def adjacent_def
  plain_visit_def incoming_loop_def assetSymbols_has_def assetSymbolsInverse_def outgoing_dep_def
  wildcard_binding_def outgoing_binding_def bindings_loop_def set_add_def






text \<open>
  The outgoing loop, cut at one dependency: the dependencies before it run first, and a
  node that is not among the outgoing dependencies is not written.
\<close>

lemma outgoing_loop_append:
  "outgoing_loop inv' re (xs @ ys) st =
     (case outgoing_loop inv' re xs st of Inl e \<Rightarrow> Inl e | Inr st' \<Rightarrow> outgoing_loop inv' re ys st')"
proof (induction xs arbitrary: st)
  case Nil
  show ?case by simp
next
  case (Cons r rs)
  obtain g au where st: "st = (g, au)" by (cases st)
  show ?case
    unfolding st using Cons.IH
    by (simp split: node_value.splits prod.splits)
qed

lemma outgoing_loop_untouched:
  "outgoing_loop inv' re outs (g, au) = Inr (g', au') \<Longrightarrow> r \<notin> set outs \<Longrightarrow> heap g' r = heap g r"
proof (induction outs arbitrary: g au)
  case Nil
  then show ?case by simp
next
  case (Cons x xs)
  from Cons.prems(1) obtain d where d: "node_value (heap g x) = DependencyValue d"
    by (cases "node_value (heap g x)") simp_all
  obtain du au1 where od: "outgoing_dep inv' re d (usedSymbols (heap g x), au) = (du, au1)"
    by (cases "outgoing_dep inv' re d (usedSymbols (heap g x), au)")
  have rec: "outgoing_loop inv' re xs
      (g\<lparr>heap := (heap g)(x := (heap g x)\<lparr>usedSymbols := du\<rparr>)\<rparr>, au1) = Inr (g', au')"
    using Cons.prems(1) d od by simp
  from Cons.IH[OF rec] Cons.prems(2) show ?case by simp
qed

text \<open>
  Claim C5. Let \<^verbatim>\<open>setUsedSymbolsAsset\<close> return on the Asset node \<open>A\<close>, and let \<open>r\<close> be an outgoing
  dependency node, listed once, without a wildcard-to-wildcard binding, whose symbol
  table (a \<^verbatim>\<open>Map\<close>, so with distinct keys) holds the entry \<open>(name, binding)\<close> after the
  entries \<open>pre\<close>. Let \<open>W\<close> be the asset's used set when the loop reaches the entry (after
  the incoming dependencies, the outgoing dependencies before \<open>r\<close> and the entries \<open>pre\<close>)
  and \<open>W'\<close> the set the entry leaves. If the asset has no symbol table or the binding is
  not weak, \<open>name\<close> is in \<^verbatim>\<open>usedSymbols\<close> of \<open>r\<close> after the call and the entry leaves the used
  set as it was. If the binding is weak, \<open>name\<close> is there exactly when it was there
  before, or the inverse table does not map the local name, or \<open>W\<close> holds the wildcard or
  the mapped export; the entry removes the mapped export from the used set in that last
  case, and nothing else in any case; and the mapped export, once removed, is not in
  \<^verbatim>\<open>usedSymbols\<close> of \<open>A\<close> after the call. What the call writes to \<open>A\<close> is within \<open>W'\<close>, and
  is \<open>W'\<close> when the entry is the last one of the last dependency.
\<close>

theorem weak_binding_rule:
  assumes run: "setUsedSymbolsAsset g A (before @ r # rest) = Inr g'"
    and A: "node_value (heap g A) = AssetValue a"
    and inc: "incomingDeps g a = Inr deps"
    and once: "r \<notin> set before" "r \<notin> set rest"
    and val: "node_value (heap g r) = DependencyValue d"
    and nw: "\<not> wildcard_binding d"
    and split: "dep_symbols d = pre @ (name, binding) # post"
    and dist: "distinct (map fst (dep_symbols d))"
  shows "\<exists>gb U W W'.
     outgoing_loop (map_option assetSymbolsInverse (asset_symbols a))
       (snd (incoming_loop g (asset_symbols a) deps)) before
       (g, fst (incoming_loop g (asset_symbols a) deps)) = Inr (gb, U) \<and>
     W = snd (bindings_loop (map_option assetSymbolsInverse (asset_symbols a)) (weakSymbols d) pre
               (usedSymbols (heap g r), U)) \<and>
     W' = snd (bindings_loop (map_option assetSymbolsInverse (asset_symbols a)) (weakSymbols d)
                (pre @ [(name, binding)]) (usedSymbols (heap g r), U)) \<and>
     (asset_symbols a = None \<or> name \<notin> weakSymbols d \<longrightarrow>
        name \<in> set (usedSymbols (heap g' r)) \<and> W' = W) \<and>
     (\<forall>syms. asset_symbols a = Some syms \<and> name \<in> weakSymbols d \<longrightarrow>
        (name \<in> set (usedSymbols (heap g' r)) \<longleftrightarrow>
           name \<in> set (usedSymbols (heap g r)) \<or>
           assetSymbolsInverse syms (local_name binding) = None \<or> ''*'' \<in> set W \<or>
           (\<exists>x. assetSymbolsInverse syms (local_name binding) = Some x \<and> x \<in> set W)) \<and>
        W' = (case assetSymbolsInverse syms (local_name binding) of
                None \<Rightarrow> W
              | Some x \<Rightarrow> if ''*'' \<in> set W \<or> x \<in> set W then removeAll x W else W) \<and>
        (\<forall>x. assetSymbolsInverse syms (local_name binding) = Some x \<and>
              (''*'' \<in> set W \<or> x \<in> set W) \<longrightarrow> x \<notin> set (usedSymbols (heap g' A)))) \<and>
     set (usedSymbols (heap g' A)) \<subseteq> set W' \<and>
     (post = [] \<and> rest = [] \<longrightarrow> usedSymbols (heap g' A) = W')"
proof -
  let ?inv = "map_option assetSymbolsInverse (asset_symbols a)"
  obtain used re where il: "incoming_loop g (asset_symbols a) deps = (used, re)"
    by (cases "incoming_loop g (asset_symbols a) deps")
  have unf: "setUsedSymbolsAsset g A (before @ r # rest) =
      (case outgoing_loop ?inv re (before @ r # rest) (g, used) of
         Inl e \<Rightarrow> Inl e
       | Inr (g1, used') \<Rightarrow>
           Inr (g1\<lparr>heap := (heap g1)(A := (heap g1 A)\<lparr>usedSymbols := used'\<rparr>)\<rparr>))"
    by (simp add: setUsedSymbolsAsset_def A inc il)
  obtain g1 used' where
    ol: "outgoing_loop ?inv re (before @ r # rest) (g, used) = Inr (g1, used')"
    and g': "g' = g1\<lparr>heap := (heap g1)(A := (heap g1 A)\<lparr>usedSymbols := used'\<rparr>)\<rparr>"
  proof (cases "outgoing_loop ?inv re (before @ r # rest) (g, used)")
    case (Inl e)
    then show ?thesis using run unf by simp
  next
    case (Inr st)
    then show ?thesis using run unf that by (cases st) simp
  qed
  obtain gb U where ob: "outgoing_loop ?inv re before (g, used) = Inr (gb, U)"
    and orr: "outgoing_loop ?inv re (r # rest) (gb, U) = Inr (g1, used')"
  proof (cases "outgoing_loop ?inv re before (g, used)")
    case (Inl e)
    then show ?thesis using ol by (simp add: outgoing_loop_append)
  next
    case (Inr st)
    then show ?thesis using ol that by (cases st) (simp add: outgoing_loop_append)
  qed
  have hb: "heap gb r = heap g r" using ob once(1) by (rule outgoing_loop_untouched)
  obtain du U1 where od: "outgoing_dep ?inv re d (usedSymbols (heap g r), U) = (du, U1)"
    by (cases "outgoing_dep ?inv re d (usedSymbols (heap g r), U)")
  have ors: "outgoing_loop ?inv re rest
      (gb\<lparr>heap := (heap gb)(r := (heap gb r)\<lparr>usedSymbols := du\<rparr>)\<rparr>, U1) = Inr (g1, used')"
    using orr val hb od by simp
  have h1: "heap g1 r = (heap gb r)\<lparr>usedSymbols := du\<rparr>"
    using outgoing_loop_untouched[OF ors once(2)] by simp
  have rA: "r \<noteq> A" using val A by auto
  have ur: "usedSymbols (heap g' r) = du" using h1 rA by (simp add: g')
  have uA: "usedSymbols (heap g' A) = used'" by (simp add: g')
  have sub: "set used' \<subseteq> set U1" using outgoing_loop_props[OF ors] by blast
  have last: "used' = U1" if "rest = []" using ors that by simp
  define W where "W = snd (bindings_loop ?inv (weakSymbols d) pre (usedSymbols (heap g r), U))"
  define W' where "W' = snd (bindings_loop ?inv (weakSymbols d) (pre @ [(name, binding)])
      (usedSymbols (heap g r), U))"
  note oe = outgoing_entry[where inv' = ?inv and depUsed = "usedSymbols (heap g r)"
      and assetUsed = U and reexported = re, OF nw split dist,
      unfolded od fst_conv snd_conv, folded W_def W'_def]
  have c1: "name \<in> set (usedSymbols (heap g' r)) \<and> W' = W"
    if "asset_symbols a = None \<or> name \<notin> weakSymbols d"
    using oe(1) that ur by auto
  have c3: "set (usedSymbols (heap g' A)) \<subseteq> set W'"
    using oe(3) sub uA by auto
  have c4: "usedSymbols (heap g' A) = W'" if "post = [] \<and> rest = []"
    using oe(4) last uA that by simp
  have c2: "(name \<in> set (usedSymbols (heap g' r)) \<longleftrightarrow>
           name \<in> set (usedSymbols (heap g r)) \<or>
           assetSymbolsInverse syms (local_name binding) = None \<or> ''*'' \<in> set W \<or>
           (\<exists>x. assetSymbolsInverse syms (local_name binding) = Some x \<and> x \<in> set W)) \<and>
        W' = (case assetSymbolsInverse syms (local_name binding) of
                None \<Rightarrow> W
              | Some x \<Rightarrow> if ''*'' \<in> set W \<or> x \<in> set W then removeAll x W else W) \<and>
        (\<forall>x. assetSymbolsInverse syms (local_name binding) = Some x \<and>
              (''*'' \<in> set W \<or> x \<in> set W) \<longrightarrow> x \<notin> set (usedSymbols (heap g' A)))"
    if "asset_symbols a = Some syms \<and> name \<in> weakSymbols d" for syms
  proof -
    have i: "?inv = Some (assetSymbolsInverse syms)" using that by simp
    note o2 = oe(2)[OF i conjunct2[OF that]]
    have "x \<notin> set (usedSymbols (heap g' A))"
      if "assetSymbolsInverse syms (local_name binding) = Some x" "''*'' \<in> set W \<or> x \<in> set W" for x
    proof -
      have "W' = removeAll x W" using o2 that by simp
      then show ?thesis using c3 by auto
    qed
    then show ?thesis using o2 ur by simp
  qed
  show ?thesis
    apply (rule exI[of _ gb], rule exI[of _ U], rule exI[of _ W], rule exI[of _ W'])
    using ob c1 c2 c3 c4 unfolding il fst_conv snd_conv W_def[symmetric] W'_def[symmetric]
    by blast
qed

text \<open>
  \<open>ex_weak\<close>: the Asset \<open>A\<close> exports \<open>a\<close> (local \<open>la\<close>), demanded by the incoming
  dependency; the outgoing dependency binds \<open>x\<close> and \<open>y\<close> weakly to \<open>la\<close>. The first
  binding is credited with \<open>a\<close>, the second finds it gone.
\<close>

definition ex_weak :: asset_graph where
  "ex_weak =
     \<lparr>heap = (\<lambda>_. (nodeFromDep (ex_dep ''din''))\<lparr>usedSymbols := [''a'']\<rparr>)
        (1 := nodeFromAsset ((ex_asset ''A'')\<lparr>asset_symbols := Some [(''a'', \<lparr>local_name = ''la''\<rparr>)]\<rparr>),
         2 := nodeFromDep ex_weak_dep),
      nextRef = 3,
      nodes = [''din'' \<mapsto> 0, ''A'' \<mapsto> 1, ''dw'' \<mapsto> 2],
      edges = [(''din'', ''A''), (''A'', ''dw'')],
      rootNodeId = None, hash = None, onNodeRemoved = False, observed = []\<rparr>"

lemma ex_weak_incoming:
  "incomingDeps ex_weak ((ex_asset ''A'')\<lparr>asset_symbols := Some [(''a'', \<lparr>local_name = ''la''\<rparr>)]\<rparr>) = Inr [0]"
  by (simp add: ex_weak_def sym_defs sym_eval)

lemma ex_weak_run:
  "setUsedSymbolsAsset ex_weak 1 [2] =
     Inr (ex_weak\<lparr>heap := (heap ex_weak)
            (2 := (heap ex_weak 2)\<lparr>usedSymbols := [''x'']\<rparr>,
             1 := (heap ex_weak 1)\<lparr>usedSymbols := []\<rparr>)\<rparr>)"
  by (simp add: ex_weak_def sym_defs sym_eval)

theorem weak_binding_rule_witness:
  "\<not> isl (setUsedSymbolsAsset ex_weak 1 [2]) \<and>
   ''x'' \<in> set (usedSymbols (heap (projr (setUsedSymbolsAsset ex_weak 1 [2])) 2)) \<and>
   ''y'' \<notin> set (usedSymbols (heap (projr (setUsedSymbolsAsset ex_weak 1 [2])) 2)) \<and>
   usedSymbols (heap (projr (setUsedSymbolsAsset ex_weak 1 [2])) 1) = []"
proof -
  let ?a = "(ex_asset ''A'')\<lparr>asset_symbols := Some [(''a'', \<lparr>local_name = ''la''\<rparr>)]\<rparr>"
  let ?g' = "projr (setUsedSymbolsAsset ex_weak 1 [2])"
  have run: "setUsedSymbolsAsset ex_weak 1 ([] @ 2 # []) = Inr ?g'"
    by (simp only: ex_weak_run sum.sel append_Nil)
  have A: "node_value (heap ex_weak 1) = AssetValue ?a" by (simp add: ex_weak_def sym_defs)
  have val: "node_value (heap ex_weak 2) = DependencyValue ex_weak_dep"
    by (simp add: ex_weak_def sym_defs)
  have nw: "\<not> wildcard_binding ex_weak_dep"
    by (simp add: wildcard_binding_def sym_defs)
  have dist: "distinct (map fst (dep_symbols ex_weak_dep))" by (simp add: sym_defs)
  have sx: "dep_symbols ex_weak_dep = [] @ (''x'', \<lparr>local_name = ''la''\<rparr>) # [(''y'', \<lparr>local_name = ''la''\<rparr>)]"
    by (simp add: sym_defs)
  have sy: "dep_symbols ex_weak_dep = [(''x'', \<lparr>local_name = ''la''\<rparr>)] @ (''y'', \<lparr>local_name = ''la''\<rparr>) # []"
    by (simp add: sym_defs)
  have w: "weakSymbols ex_weak_dep = {''x'', ''y''}" by (simp add: sym_defs)
  have sy': "asset_symbols ?a = Some [(''a'', \<lparr>local_name = ''la''\<rparr>)]" by (simp add: ex_asset_def)
  have inv: "assetSymbolsInverse [(''a'', \<lparr>local_name = ''la''\<rparr>)] ''la'' = Some ''a''"
    by (simp add: assetSymbolsInverse_def)
  have il: "incoming_loop ex_weak (Some [(''a'', \<lparr>local_name = ''la''\<rparr>)]) [0] = ([''a''], [])"
    by (simp add: ex_weak_def sym_defs sym_eval)
  have u2: "usedSymbols (heap ex_weak 2) = []" by (simp add: ex_weak_def sym_defs)
  have bl: "snd (bindings_loop (Some (assetSymbolsInverse [(''a'', \<lparr>local_name = ''la''\<rparr>)]))
      {''x'', ''y''} [(''x'', \<lparr>local_name = ''la''\<rparr>)] ([], [''a''])) = []"
    by (simp add: outgoing_binding_def inv)
  from weak_binding_rule[OF run A ex_weak_incoming _ _ val nw sx dist]
  have x: "''x'' \<in> set (usedSymbols (heap ?g' 2))"
    by (simp add: il sy' w inv u2)
  from weak_binding_rule[OF run A ex_weak_incoming _ _ val nw sy dist]
  have y: "''y'' \<notin> set (usedSymbols (heap ?g' 2)) \<and> usedSymbols (heap ?g' 1) = []"
    by (simp add: il sy' w inv u2 bl outgoing_binding_def)
  have "\<not> isl (setUsedSymbolsAsset ex_weak 1 [2])" by (simp only: ex_weak_run sum.disc not_False_eq_True)
  then show ?thesis using x y by simp
qed

section \<open>Mutation primitives\<close>

text \<open>Allocation of a fresh node object (an object literal in the source).\<close>

definition new_node :: "node \<Rightarrow> asset_graph \<Rightarrow> ref \<times> asset_graph" where
  "new_node n g = (nextRef g, g\<lparr>heap := (heap g)(nextRef g := n), nextRef := Suc (nextRef g)\<rparr>)"

fun new_nodes :: "node list \<Rightarrow> asset_graph \<Rightarrow> ref list \<times> asset_graph" where
  "new_nodes [] g = ([], g)"
| "new_nodes (n # ns) g =
     (case new_node n g of (r, g1) \<Rightarrow> (case new_nodes ns g1 of (rs, g2) \<Rightarrow> (r # rs, g2)))"

text \<open>
  \<^verbatim>\<open>addNode\<close>, lines 125 to 128. Modelled from the spec: \<^verbatim>\<open>super.addNode\<close> (section 4.1)
  stores the node under its id.
\<close>

definition addNode :: "asset_graph \<Rightarrow> ref \<Rightarrow> asset_graph" where
  "addNode g node = g\<lparr>hash := None, nodes := (nodes g)(node_key g node \<mapsto> node)\<rparr>"

text \<open>
  \<^verbatim>\<open>removeNode\<close>, lines 130 to 134: the hash is dropped and the observer told, then
  \<^verbatim>\<open>super.removeNode\<close> runs. Modelled from the spec: \<^verbatim>\<open>super.removeNode\<close> (section 4.1)
  deletes the node and all its edges and removes, through \<^verbatim>\<open>removeNode\<close> again, every
  child left with no remaining parent. \<open>remove_step\<close> is one removal, returning the
  children to remove next; \<open>removeNodes\<close> works through the pending removals.
\<close>

definition remove_step :: "asset_graph \<Rightarrow> ref \<Rightarrow> asset_graph \<times> ref list" where
  "remove_step g node =
     (let i = node_key g node;
          children = remdups (getNodesConnectedFrom g node);
          g1 = g\<lparr>hash := None,
                 observed := (if onNodeRemoved g then observed g @ [node] else observed g),
                 nodes := (nodes g)(i := None),
                 edges := filter (\<lambda>e. fst e \<noteq> i \<and> snd e \<noteq> i) (edges g)\<rparr>
      in (g1,
          filter (\<lambda>c. nodes g1 (node_key g1 c) = Some c \<and>
                      \<not> list_ex (\<lambda>e. snd e = node_key g1 c) (edges g1))
            children))"

function removeNodes :: "asset_graph \<Rightarrow> ref list \<Rightarrow> asset_graph" where
  "removeNodes g [] = g"
| "removeNodes g (node # todo) =
     (case remove_step g node of (g1, orphans) \<Rightarrow> removeNodes g1 (orphans @ todo))"
  by pat_completeness auto

lemma outbound_filter_length:
  "length (filter (\<lambda>e. fst e = i) (outbound g)) \<le> length (filter (\<lambda>e. fst e = i) (edges g))"
proof -
  have "length (filter (\<lambda>e. fst e = i)
          (concat (map (\<lambda>(f, t). case m t of None \<Rightarrow> [] | Some r \<Rightarrow> [(f, r)]) es)))
      \<le> length (filter (\<lambda>e. fst e = i) es)" for m :: "string \<rightharpoonup> ref" and es
    by (induction es) (auto split: option.splits)
  then show ?thesis by (simp add: outbound_def)
qed

lemma remove_step_measure:
  assumes "remove_step g node = (g1, orphans)"
  shows "2 * length (edges g1) + length orphans \<le> 2 * length (edges g)"
proof -
  let ?i = "node_key g node"
  have e1: "edges g1 = filter (\<lambda>e. fst e \<noteq> ?i \<and> snd e \<noteq> ?i) (edges g)"
    using assms by (auto simp: remove_step_def Let_def)
  have "length orphans \<le> length (remdups (getNodesConnectedFrom g node))"
    using assms by (auto simp: remove_step_def Let_def)
  also have "\<dots> \<le> length (getNodesConnectedFrom g node)" by (rule length_remdups_leq)
  also have "\<dots> \<le> length (filter (\<lambda>e. fst e = ?i) (edges g))"
    using outbound_filter_length[of ?i g] by (simp add: getNodesConnectedFrom_def adjacent_def)
  finally have o: "length orphans \<le> length (filter (\<lambda>e. fst e = ?i) (edges g))" .
  have "length (filter (\<lambda>e. fst e \<noteq> i \<and> snd e \<noteq> i) es)
        + length (filter (\<lambda>e. fst e = i) es) \<le> length es" for i :: string and es :: "(string \<times> string) list"
    by (induction es) auto
  from this[of ?i "edges g"] show ?thesis using o e1 by simp
qed


termination removeNodes
proof (relation "measure (\<lambda>(g, todo). 2 * length (edges g) + length todo)", goal_cases)
  case 1
  show ?case by simp
next
  case (2 g node todo g1 orphans)
  then show ?case using remove_step_measure[of g node g1 orphans] by simp
qed

declare removeNodes.simps [simp del]

definition removeNode :: "asset_graph \<Rightarrow> ref \<Rightarrow> asset_graph" where
  "removeNode g node = removeNodes g [node]"

text \<open>
  Modelled from the spec: \<^verbatim>\<open>Graph.replaceNodesConnectedTo\<close>, section 4.1. The desired
  children are taken first: one whose id the graph does not hold is inserted through
  \<^verbatim>\<open>addNode\<close>, and an edge is added where there is none (a child the graph already holds
  keeps its own node object). Then every former child whose id is not desired loses its
  edge and, when no edge leads to it any more, is removed through \<^verbatim>\<open>removeNode\<close>.
\<close>

definition connect_child :: "string \<Rightarrow> asset_graph \<Rightarrow> ref \<Rightarrow> asset_graph" where
  "connect_child p g toNode =
     (let g1 = (if nodes g (node_key g toNode) = None then addNode g toNode else g)
      in if (p, node_key g toNode) \<in> set (edges g1) then g1
         else g1\<lparr>edges := edges g1 @ [(p, node_key g toNode)]\<rparr>)"

definition disconnect_child :: "string \<Rightarrow> asset_graph \<Rightarrow> string \<Rightarrow> asset_graph" where
  "disconnect_child p g c =
     (let g1 = g\<lparr>edges := filter (\<lambda>e. e \<noteq> (p, c)) (edges g)\<rparr>
      in case nodes g1 c of
           None \<Rightarrow> g1
         | Some child \<Rightarrow>
             if list_ex (\<lambda>e. snd e = c) (edges g1) then g1 else removeNode g1 child)"

definition replaceNodesConnectedTo :: "asset_graph \<Rightarrow> ref \<Rightarrow> ref list \<Rightarrow> asset_graph" where
  "replaceNodesConnectedTo g fromNode toNodes =
     (let p = node_key g fromNode;
          desired = map (node_key g) toNodes;
          childrenToRemove =
            remdups (filter (\<lambda>c. c \<notin> set desired) (map snd (filter (\<lambda>e. fst e = p) (edges g))));
          g1 = foldl (connect_child p) g toNodes
      in foldl (disconnect_child p) g1 childrenToRemove)"

text \<open>
  Modelled from the spec: \<^verbatim>\<open>Graph.traverse\<close> and \<^verbatim>\<open>Graph.filteredTraverse\<close>, section
  4.2: the walk over the outgoing edges from the start node, the root by default; a node
  the map gives nothing for is not handed to the visitor, and its descendants are still
  walked. The specification does not say what a traversal without a start node does;
  here it raises.
\<close>

definition getRootNode :: "asset_graph \<Rightarrow> ref option" where
  "getRootNode g = (case rootNodeId g of None \<Rightarrow> None | Some i \<Rightarrow> nodes g i)"

definition traverse ::
    "asset_graph \<Rightarrow> (ref, 'c, 's) visitor \<Rightarrow> ref option \<Rightarrow> 's \<Rightarrow> error + ref list \<times> 's" where
  "traverse g visit startNode s =
     (case (case startNode of None \<Rightarrow> getRootNode g | Some n \<Rightarrow> Some n) of
        None \<Rightarrow> Inl NoStartNode
      | Some root \<Rightarrow> Inr (dfs (node_key g) (outbound g) visit [(root, None)] [] s))"

definition filteredTraverse ::
    "asset_graph \<Rightarrow> (node \<Rightarrow> 'a option) \<Rightarrow> ('a, 'c, 's) visitor \<Rightarrow> ref option \<Rightarrow> 's \<Rightarrow>
     error + ref list \<times> 's" where
  "filteredTraverse g filter' visit startNode s =
     traverse g
       (\<lambda>n ctx s. case filter' (heap g n) of None \<Rightarrow> (s, None, False, False) | Some v \<Rightarrow> visit v ctx s)
       startNode s"

text \<open>\<^verbatim>\<open>traverseAssets\<close>, lines 420 to 429.\<close>

definition traverseAssets ::
    "asset_graph \<Rightarrow> (asset, 'c, 's) visitor \<Rightarrow> ref option \<Rightarrow> 's \<Rightarrow> error + ref list \<times> 's" where
  "traverseAssets g visit startNode s =
     filteredTraverse g (\<lambda>node. case node_value node of AssetValue a \<Rightarrow> Some a | _ \<Rightarrow> None)
       visit startNode s"

section \<open>Hash cache\<close>

text \<open>
  The visitor of \<^verbatim>\<open>getHash\<close>, lines 459 to 465. The state is the list of the strings
  handed to \<^verbatim>\<open>hash.update\<close> so far, or the error \<^verbatim>\<open>nullthrows\<close> raised, which ends the
  traversal. \<^verbatim>\<open>JSON.stringify\<close> is a parameter.
\<close>

definition hash_visit ::
    "(target \<Rightarrow> string) \<Rightarrow> asset_graph \<Rightarrow> (ref, unit, error + string list) visitor" where
  "hash_visit stringify g n ctx st =
     (case st of
        Inl e \<Rightarrow> (Inl e, None, False, True)
      | Inr updates \<Rightarrow>
          (case node_value (heap g n) of
             AssetValue a \<Rightarrow>
               (case outputHash a of
                  None \<Rightarrow> (Inl NullThrows, None, False, True)
                | Some h \<Rightarrow> (Inr (updates @ [h]), None, False, False))
           | DependencyValue d \<Rightarrow>
               (case dep_target d of
                  None \<Rightarrow> (Inr updates, None, False, False)
                | Some t \<Rightarrow> (Inr (updates @ [stringify t]), None, False, False))
           | _ \<Rightarrow> (Inr updates, None, False, False)))"

text \<open>
  \<^verbatim>\<open>getHash\<close>, lines 452 to 469: the digest and the graph after the call. The MD5 hex
  digest of the concatenated updates (\<^verbatim>\<open>crypto\<close>) is a parameter.
\<close>

definition getHash ::
    "(string \<Rightarrow> string) \<Rightarrow> (target \<Rightarrow> string) \<Rightarrow> asset_graph \<Rightarrow> error + string \<times> asset_graph" where
  "getHash md5hex stringify g =
     (case hash g of
        Some h \<Rightarrow> Inr (h, g)
      | None \<Rightarrow>
          (case traverse g (hash_visit stringify g) None (Inr []) of
             Inl e \<Rightarrow> Inl e
           | Inr (V, Inl e) \<Rightarrow> Inl e
           | Inr (V, Inr updates) \<Rightarrow>
               Inr (md5hex (concat updates), g\<lparr>hash := Some (md5hex (concat updates))\<rparr>)))"


section \<open>Resolution state machine\<close>

definition set_correspondingRequest :: "ref \<Rightarrow> string \<Rightarrow> asset_graph \<Rightarrow> asset_graph" where
  "set_correspondingRequest r req g =
     g\<lparr>heap := (heap g)(r := (heap g r)\<lparr>correspondingRequest := Some req\<rparr>)\<rparr>"

text \<open>
  \<^verbatim>\<open>resolveEntry\<close>, lines 136 to 148. \<^verbatim>\<open>nullthrows\<close> raises on a missing node and
  \<^verbatim>\<open>invariant\<close> on a node of another type.
\<close>

definition resolveEntry ::
    "(entry \<Rightarrow> string) \<Rightarrow> asset_graph \<Rightarrow> string \<Rightarrow> entry list \<Rightarrow> string \<Rightarrow> error + asset_graph" where
  "resolveEntry md5FromObject g entry' resolved req =
     (case nodes g (node_id (nodeFromEntrySpecifier entry')) of
        None \<Rightarrow> Inl NullThrows
      | Some entrySpecifierNode \<Rightarrow>
          if ntype (heap g entrySpecifierNode) \<noteq> T_entry_specifier then Inl InvariantFailed
          else
            (case new_nodes (map (nodeFromEntryFile md5FromObject) resolved)
                    (set_correspondingRequest entrySpecifierNode req g) of
               (entryFileNodes, g1) \<Rightarrow>
                 Inr (replaceNodesConnectedTo g1 entrySpecifierNode entryFileNodes)))"

text \<open>
  The argument of \<^verbatim>\<open>createDependency\<close> (from \<^verbatim>\<open>./Dependency\<close>, a parameter here) in
  \<^verbatim>\<open>resolveTargets\<close>, and the node built from a target, lines 155 to 170.
\<close>

record dependency_opts =
  opt_moduleSpecifier :: string
  opt_pipeline :: string
  opt_target :: target
  opt_env :: environment
  opt_isEntry :: bool

definition target_node :: "(dependency_opts \<Rightarrow> dependency) \<Rightarrow> entry \<Rightarrow> target \<Rightarrow> node" where
  "target_node createDependency entry' t =
     (let node = nodeFromDep (createDependency
                   \<lparr>opt_moduleSpecifier = filePath entry', opt_pipeline = target_name t,
                    opt_target = t, opt_env = target_env t, opt_isEntry = True\<rparr>)
      in if isLibrary (target_env t) then node\<lparr>usedSymbols := set_add ''*'' (usedSymbols node)\<rparr>
         else node)"

text \<open>\<^verbatim>\<open>resolveTargets\<close>, lines 150 to 178.\<close>

definition resolveTargets ::
    "(entry \<Rightarrow> string) \<Rightarrow> (dependency_opts \<Rightarrow> dependency) \<Rightarrow> asset_graph \<Rightarrow> entry \<Rightarrow>
     target list \<Rightarrow> string \<Rightarrow> error + asset_graph" where
  "resolveTargets md5FromObject createDependency g entry' targets req =
     (case new_nodes (map (target_node createDependency entry') targets) g of
        (depNodes, g1) \<Rightarrow>
          (case nodes g1 (node_id (nodeFromEntryFile md5FromObject entry')) of
             None \<Rightarrow> Inl NullThrows
           | Some entryNode \<Rightarrow>
               if ntype (heap g1 entryNode) \<noteq> T_entry_file then Inl InvariantFailed
               else
                 (let g2 = set_correspondingRequest entryNode req g1
                  in if nodes g2 (node_key g2 entryNode) \<noteq> None
                     then Inr (replaceNodesConnectedTo g2 entryNode depNodes)
                     else Inr g2)))"

text \<open>
  \<^verbatim>\<open>resolveDependency\<close>, lines 180 to 196. \<^verbatim>\<open>nullthrows\<close> on line 185 raises on a
  missing node, so the \<^verbatim>\<open>if (!depNode) return\<close> of line 187 is never taken.
\<close>

definition resolveDependency ::
    "(assetGroup \<Rightarrow> string) \<Rightarrow> asset_graph \<Rightarrow> dependency \<Rightarrow> assetGroup option \<Rightarrow> string \<Rightarrow>
     error + asset_graph" where
  "resolveDependency md5FromObject g dep assetGroup' req =
     (case nodes g (dep_id dep) of
        None \<Rightarrow> Inl NullThrows
      | Some depNode \<Rightarrow>
          if ntype (heap g depNode) \<noteq> T_dependency then Inl InvariantFailed
          else
            (let g1 = set_correspondingRequest depNode req g
             in case assetGroup' of
                  None \<Rightarrow> Inr g1
                | Some ag \<Rightarrow>
                    (case new_node (nodeFromAssetGroup md5FromObject ag) g1 of
                       (n, g2) \<Rightarrow> Inr (replaceNodesConnectedTo g2 depNode [n]))))"

text \<open>
  \<^verbatim>\<open>resolveAsset\<close>, lines 383 to 404. \<open>dep_nodes\<close> is the loop of lines 386 to 396: it
  gives \<^verbatim>\<open>depNodes\<close> and \<^verbatim>\<open>depNodesWithAssets\<close>.
\<close>

fun dep_nodes ::
    "asset list \<Rightarrow> dependency list \<Rightarrow> asset_graph \<Rightarrow> ref list \<times> (ref \<times> ref) list \<times> asset_graph" where
  "dep_nodes dependentAssets [] g = ([], [], g)"
| "dep_nodes dependentAssets (dep # deps) g =
     (case find (\<lambda>a. uniqueKey a = Some (moduleSpecifier dep)) dependentAssets of
        None \<Rightarrow>
          (case new_node (nodeFromDep dep) g of
             (depNode, g1) \<Rightarrow>
               (case dep_nodes dependentAssets deps g1 of
                  (depNodes, withAssets, g2) \<Rightarrow> (depNode # depNodes, withAssets, g2)))
      | Some dependentAsset \<Rightarrow>
          (case new_node ((nodeFromDep dep)\<lparr>complete := Some True\<rparr>) g of
             (depNode, g1) \<Rightarrow>
               (case new_node (nodeFromAsset dependentAsset) g1 of
                  (assetNode, g2) \<Rightarrow>
                    (case dep_nodes dependentAssets deps g2 of
                       (depNodes, withAssets, g3) \<Rightarrow>
                         (depNode # depNodes, (depNode, assetNode) # withAssets, g3)))))"

definition resolveAsset :: "asset_graph \<Rightarrow> ref \<Rightarrow> asset list \<Rightarrow> error + asset_graph" where
  "resolveAsset g assetNode dependentAssets =
     (case node_value (heap g assetNode) of
        AssetValue a \<Rightarrow>
          (case dep_nodes dependentAssets (map snd (dependencies a)) g of
             (depNodes, depNodesWithAssets, g1) \<Rightarrow>
               (case setUsedSymbolsAsset (replaceNodesConnectedTo g1 assetNode depNodes)
                       assetNode depNodes of
                  Inl e \<Rightarrow> Inl e
                | Inr g2 \<Rightarrow>
                    Inr (foldl (\<lambda>g (depNode, dependentAssetNode).
                                  replaceNodesConnectedTo g depNode [dependentAssetNode])
                           g2 depNodesWithAssets)))
      | _ \<Rightarrow> Inl IllTyped)"

text \<open>
  \<^verbatim>\<open>resolveAssetGroup\<close>, lines 335 to 381. \<open>asset_objects\<close> is the loop of lines 354 to
  372 over the batch, with the \<^verbatim>\<open>dependentAssetKeys\<close> pushed so far; \<open>resolve_assets\<close>
  is the loop of lines 378 to 380.
\<close>

fun asset_objects ::
    "asset list \<Rightarrow> asset list \<Rightarrow> string option list \<Rightarrow> asset_graph \<Rightarrow>
     (ref \<times> asset list \<times> bool) list \<times> asset_graph" where
  "asset_objects assets [] dependentAssetKeys g = ([], g)"
| "asset_objects assets (a # rest) dependentAssetKeys g =
     (let isDirect = uniqueKey a \<notin> set dependentAssetKeys;
          dependentAssets =
            List.map_filter
              (\<lambda>dep. find (\<lambda>b. uniqueKey b = Some (moduleSpecifier dep)) assets)
              (map snd (dependencies a))
      in case new_node (nodeFromAsset a) g of
           (assetNode, g1) \<Rightarrow>
             (case asset_objects assets rest
                     (dependentAssetKeys @ map uniqueKey dependentAssets) g1 of
                (objects, g2) \<Rightarrow> ((assetNode, dependentAssets, isDirect) # objects, g2)))"

fun resolve_assets :: "(ref \<times> asset list \<times> bool) list \<Rightarrow> asset_graph \<Rightarrow> error + asset_graph" where
  "resolve_assets [] g = Inr g"
| "resolve_assets ((assetNode, dependentAssets, isDirect) # objects) g =
     (case resolveAsset g assetNode dependentAssets of
        Inl e \<Rightarrow> Inl e
      | Inr g1 \<Rightarrow> resolve_assets objects g1)"

definition resolveAssetGroup ::
    "(assetGroup \<Rightarrow> string) \<Rightarrow> asset_graph \<Rightarrow> assetGroup \<Rightarrow> asset list \<Rightarrow> string \<Rightarrow>
     error + asset_graph" where
  "resolveAssetGroup md5FromObject g assetGroup' assets req =
     (case nodes g (node_id (nodeFromAssetGroup md5FromObject assetGroup')) of
        None \<Rightarrow> Inr g
      | Some assetGroupNode \<Rightarrow>
          if ntype (heap g assetGroupNode) \<noteq> T_asset_group then Inl InvariantFailed
          else
            (case asset_objects assets assets []
                    (set_correspondingRequest assetGroupNode req g) of
               (assetObjects, g1) \<Rightarrow>
                 resolve_assets assetObjects
                   (replaceNodesConnectedTo g1 assetGroupNode
                      (map fst (filter (\<lambda>(n, d, isDirect). isDirect) assetObjects)))))"

section \<open>Traversal and the hash cache\<close>

lemma dfs_distinct: "distinct V \<Longrightarrow> distinct (fst (dfs key E visit stack V s))"
  by (rule dfs_inv_rule[where I = "\<lambda>stack V s. distinct V" and Q = "\<lambda>V s. distinct V"]) auto

lemma dfs_distinct_Nil: "dfs key E visit stack [] s = (V, t) \<Longrightarrow> distinct V"
  using dfs_distinct[of "[]" key E visit stack s] by simp

lemma dfs_extends: "\<exists>W. fst (dfs key E visit stack V s) = V @ W"
  by (rule dfs_inv_rule[where I = "\<lambda>stack V' s. \<exists>W. V' = V @ W" and Q = "\<lambda>V' s. \<exists>W. V' = V @ W"]) auto

text \<open>
  What a node contributes to the digest, lines 460 to 464, and whether \<^verbatim>\<open>nullthrows\<close>
  accepts the node (an Asset must have an output hash).
\<close>

definition update_chunk :: "(target \<Rightarrow> string) \<Rightarrow> asset_graph \<Rightarrow> ref \<Rightarrow> string" where
  "update_chunk stringify g n =
     (case node_value (heap g n) of
        AssetValue a \<Rightarrow> (case outputHash a of None \<Rightarrow> [] | Some h \<Rightarrow> h)
      | DependencyValue d \<Rightarrow> (case dep_target d of None \<Rightarrow> [] | Some t \<Rightarrow> stringify t)
      | _ \<Rightarrow> [])"

definition has_outputHash :: "asset_graph \<Rightarrow> ref \<Rightarrow> bool" where
  "has_outputHash g n =
     (case node_value (heap g n) of AssetValue a \<Rightarrow> outputHash a \<noteq> None | _ \<Rightarrow> True)"

lemma hash_visit_ok:
  "has_outputHash g n \<Longrightarrow>
   \<exists>us. hash_visit stringify g n ctx (Inr updates) = (Inr (updates @ us), None, False, False) \<and>
        concat us = update_chunk stringify g n"
  by (auto simp: hash_visit_def has_outputHash_def update_chunk_def split: node_value.splits option.splits)

lemma dfs_hash_visit:
  "(\<forall>n\<in>set (fst (dfs key E plain_visit stack V ())). n \<notin> set V \<longrightarrow> has_outputHash g n) \<Longrightarrow>
   \<exists>us. dfs key E (hash_visit stringify g) stack V (Inr updates)
          = (fst (dfs key E plain_visit stack V ()), Inr (updates @ us)) \<and>
        concat us = concat (map (update_chunk stringify g)
                      (drop (length V) (fst (dfs key E plain_visit stack V ()))))"
proof (induction key E "hash_visit stringify g" stack V "Inr updates :: error + string list"
    arbitrary: updates rule: dfs.induct)
  case (1 key E V)
  then show ?case by (simp add: dfs.simps)
next
  case (2 key E n ctx stack V)
  show ?case
  proof (cases "n \<in> set V")
    case True
    have eq: "dfs key E plain_visit ((n, ctx) # stack) V () = dfs key E plain_visit stack V ()"
      using True by (simp add: dfs.simps)
    from "2.hyps"(1)[OF True] "2.prems" show ?thesis
      using True by (simp add: eq) (simp add: dfs.simps)
  next
    case False
    let ?st = "map (\<lambda>c. (c, case None :: unit option of None \<Rightarrow> ctx | Some x \<Rightarrow> Some x))
        (adjacent key E n) @ stack"
    let ?st' = "map (\<lambda>c. (c, ctx)) (adjacent key E n) @ stack"
    have eq: "dfs key E plain_visit ((n, ctx) # stack) V () = dfs key E plain_visit ?st' (V @ [n]) ()"
      using False by (simp add: dfs.simps plain_visit_def)
    obtain W where W: "fst (dfs key E plain_visit ?st' (V @ [n]) ()) = (V @ [n]) @ W"
      using dfs_extends[of key E plain_visit ?st' "V @ [n]" "()"] by blast
    have okn: "has_outputHash g n"
      using "2.prems" False by (simp add: eq W)
    obtain us where us: "hash_visit stringify g n ctx (Inr updates) = (Inr (updates @ us), None, False, False)"
      "concat us = update_chunk stringify g n"
      using hash_visit_ok[OF okn] by blast
    have pre: "\<forall>m\<in>set (fst (dfs key E plain_visit ?st (V @ [n]) ())). m \<notin> set (V @ [n]) \<longrightarrow> has_outputHash g m"
      using "2.prems" by (simp add: eq)
    from "2.hyps"(3)[OF False us(1)[symmetric] refl refl _ _ pre]
    obtain vs where vs: "dfs key E (hash_visit stringify g) ?st (V @ [n]) (Inr (updates @ us))
          = (fst (dfs key E plain_visit ?st (V @ [n]) ()), Inr ((updates @ us) @ vs))"
      "concat vs = concat (map (update_chunk stringify g)
          (drop (length (V @ [n])) (fst (dfs key E plain_visit ?st (V @ [n]) ()))))"
      by auto
    have hv: "dfs key E (hash_visit stringify g) ((n, ctx) # stack) V (Inr updates)
        = dfs key E (hash_visit stringify g) ?st' (V @ [n]) (Inr (updates @ us))"
      using False us(1) by (simp add: dfs.simps)
    have "dfs key E (hash_visit stringify g) ((n, ctx) # stack) V (Inr updates)
        = (fst (dfs key E plain_visit ((n, ctx) # stack) V ()), Inr (updates @ (us @ vs)))"
      using vs(1) by (simp add: hv eq)
    moreover have "concat (us @ vs) = concat (map (update_chunk stringify g)
        (drop (length V) (fst (dfs key E plain_visit ((n, ctx) # stack) V ()))))"
      using us(2) vs(2) by (simp add: eq W)
    ultimately show ?thesis by blast
  qed
qed


lemma removeNodes_hash: "hash g = None \<Longrightarrow> hash (removeNodes g todo) = None"
proof (induction g todo rule: removeNodes.induct)
  case (1 g)
  then show ?case by (simp add: removeNodes.simps)
next
  case (2 g node todo)
  obtain g1 orphans where rs: "remove_step g node = (g1, orphans)"
    by (cases "remove_step g node")
  have "hash g1 = None" using rs by (auto simp: remove_step_def Let_def)
  then show ?case using 2(1)[OF rs[symmetric]] rs by (simp add: removeNodes.simps)
qed

lemma removeNode_hash: "hash (removeNode g node) = None"
proof -
  obtain g1 orphans where rs: "remove_step g node = (g1, orphans)"
    by (cases "remove_step g node")
  have "hash g1 = None" using rs by (auto simp: remove_step_def Let_def)
  then show ?thesis
    using rs by (simp add: removeNode_def removeNodes.simps removeNodes_hash)
qed

text \<open>
  Claim C7. When \<^verbatim>\<open>getHash\<close> returns \<open>h\<close>, the cached hash is \<open>h\<close> and a second call on the
  graph it left returns \<open>h\<close> again and changes nothing; \<^verbatim>\<open>addNode\<close> and \<^verbatim>\<open>removeNode\<close>
  each leave the cached hash unset, so that the next \<^verbatim>\<open>getHash\<close> computes the digest anew.
\<close>

theorem getHash_cached_until_edit:
  "(getHash md5hex stringify g = Inr (h, g') \<longrightarrow>
      hash g' = Some h \<and> getHash md5hex stringify g' = Inr (h, g')) \<and>
   hash (addNode g node) = None \<and> hash (removeNode g node) = None"
proof (intro conjI impI)
  assume run: "getHash md5hex stringify g = Inr (h, g')"
  show "hash g' = Some h"
    using run by (auto simp: getHash_def split: option.splits sum.splits)
  then show "getHash md5hex stringify g' = Inr (h, g')"
    by (simp add: getHash_def)
next
  show "hash (addNode g node) = None" by (simp add: addNode_def)
  show "hash (removeNode g node) = None" by (rule removeNode_hash)
qed

text \<open>
  Claim C9. With no hash cached, a root node and an output hash on every Asset the
  traversal visits (\<^verbatim>\<open>nullthrows\<close> raises otherwise), \<^verbatim>\<open>getHash\<close> returns the digest of
  the concatenation, in the order of a descendant traversal from the root, of the output
  hash of each Asset visited and the serialised target of each Dependency visited that
  has one, nothing being added for any other node; and it caches that digest.
\<close>

theorem getHash_digest:
  assumes "hash g = None" and "getRootNode g = Some root"
    and "\<forall>n\<in>set (descendants g root). has_outputHash g n"
  shows "getHash md5hex stringify g =
     Inr (md5hex (concat (map (update_chunk stringify g) (descendants g root))),
          g\<lparr>hash := Some (md5hex (concat (map (update_chunk stringify g) (descendants g root))))\<rparr>)"
proof -
  have pre: "\<forall>n\<in>set (fst (dfs (node_key g) (outbound g) plain_visit [(root, None)] [] ())).
      n \<notin> set [] \<longrightarrow> has_outputHash g n"
    using assms(3) by (simp add: descendants_def)
  from dfs_hash_visit[OF pre, of stringify "[]"] obtain us where
    us: "dfs (node_key g) (outbound g) (hash_visit stringify g) [(root, None)] [] (Inr [])
          = (descendants g root, Inr us)"
      "concat us = concat (map (update_chunk stringify g) (descendants g root))"
    by (auto simp: descendants_def)
  show ?thesis
    using assms(1,2) us by (simp add: getHash_def traverse_def)
qed

text \<open>
  Claim C8. On every graph, cyclic or not, the depth-first walk terminates (\<open>dfs_dom\<close>
  is the set of arguments on which the recursion of \<open>dfs\<close> ends), and \<^verbatim>\<open>traverse\<close>,
  \<^verbatim>\<open>traverseAssets\<close> and the ancestor walk of \<^verbatim>\<open>getIncomingDependencies\<close> hand no node to
  the visitor twice: the list of visited nodes has no repetition.
\<close>

theorem traversal_cycle_safe:
  "dfs_dom (key, E, visit, stack, V0, s) \<and>
   (traverse g visit' startNode s' = Inr (V, t) \<longrightarrow> distinct V) \<and>
   (traverseAssets g visitA startNode s' = Inr (V, t) \<longrightarrow> distinct V) \<and>
   distinct (fst (traverseAncestors g node visit' s')) \<and>
   distinct (findAncestors g node fn)"
proof (intro conjI impI)
  show "dfs_dom (key, E, visit, stack, V0, s)" using dfs_total by blast
  show "distinct V" if "traverse g visit' startNode s' = Inr (V, t)"
    using that
    by (auto simp: traverse_def split: option.splits dest: dfs_distinct_Nil)
  show "distinct V" if "traverseAssets g visitA startNode s' = Inr (V, t)"
    using that
    by (auto simp: traverseAssets_def filteredTraverse_def traverse_def split: option.splits
        dest: dfs_distinct_Nil)
  show "distinct (fst (traverseAncestors g node visit' s'))"
    by (simp add: traverseAncestors_def dfs_distinct)
  show "distinct (findAncestors g node fn)"
    by (simp add: findAncestors_def traverseAncestors_def dfs_distinct)
qed

section \<open>Resolvers on a missing node\<close>

lemma resolveDependency_missing:
  "nodes g (dep_id dep) = None \<Longrightarrow> resolveDependency md5FromObject g dep assetGroup' req = Inl NullThrows"
  by (simp add: resolveDependency_def)

lemma resolveAssetGroup_missing:
  "nodes g (md5FromObject assetGroup') = None \<Longrightarrow>
   resolveAssetGroup md5FromObject g assetGroup' assets req = Inr g"
  by (simp add: resolveAssetGroup_def nodeFromAssetGroup_def)

lemma resolveEntry_missing:
  "nodes g (''entry_specifier:'' @ entry') = None \<Longrightarrow>
   resolveEntry md5FromObject g entry' resolved req = Inl NullThrows"
  by (simp add: resolveEntry_def nodeFromEntrySpecifier_def)

lemma new_nodes_nodes: "new_nodes ns g = (rs, g1) \<Longrightarrow> nodes g1 = nodes g"
proof (induction ns arbitrary: g rs)
  case Nil
  then show ?case by simp
next
  case (Cons n ns)
  then show ?case
    by (auto simp: new_node_def split: prod.splits)
qed

lemma resolveTargets_missing:
  "nodes g (''entry_file:'' @ md5FromObject entry') = None \<Longrightarrow>
   resolveTargets md5FromObject createDependency g entry' targets req = Inl NullThrows"
proof -
  assume a: "nodes g (''entry_file:'' @ md5FromObject entry') = None"
  obtain depNodes g1 where n: "new_nodes (map (target_node createDependency entry') targets) g = (depNodes, g1)"
    by (cases "new_nodes (map (target_node createDependency entry') targets) g")
  show ?thesis
    using a n new_nodes_nodes[OF n] by (simp add: resolveTargets_def nodeFromEntryFile_def)
qed

text \<open>
  Claim C1. The claim holds of \<^verbatim>\<open>resolveAssetGroup\<close>, \<^verbatim>\<open>resolveEntry\<close> and
  \<^verbatim>\<open>resolveTargets\<close> (the lemmas above); \<^verbatim>\<open>resolveDependency\<close> on a dependency whose node
  is absent raises, instead of returning with the graph unchanged.
\<close>

theorem resolveDependency_missing_node_throws:
  "nodes ex_chain (dep_id (ex_dep ''gone'')) = None \<and>
   resolveDependency group_filePath ex_chain (ex_dep ''gone'') (Some (ex_group ''g'')) ''req''
     = Inl NullThrows"
  by (simp add: resolveDependency_def ex_chain_def ex_dep_def)


text \<open>
  A graph with an import cycle (Asset a, Dependency d, AssetGroup g, Asset b, Dependency
  d2, AssetGroup g2, and back to a), and a rooted graph with a target Dependency and an
  Asset that has an output hash.
\<close>

definition ex_cycle :: asset_graph where
  "ex_cycle =
     \<lparr>heap = (\<lambda>_. nodeFromAsset (ex_asset ''a''))
        (1 := nodeFromDep (ex_dep ''d''),
         2 := nodeFromAssetGroup group_filePath (ex_group ''g''),
         3 := nodeFromAsset (ex_asset ''b''),
         4 := nodeFromDep (ex_dep ''d2''),
         5 := nodeFromAssetGroup group_filePath (ex_group ''g2'')),
      nextRef = 6,
      nodes = [''a'' \<mapsto> 0, ''d'' \<mapsto> 1, ''g'' \<mapsto> 2, ''b'' \<mapsto> 3, ''d2'' \<mapsto> 4, ''g2'' \<mapsto> 5],
      edges = [(''a'', ''d''), (''d'', ''g''), (''g'', ''b''), (''b'', ''d2''), (''d2'', ''g2''),
               (''g2'', ''a'')],
      rootNodeId = None, hash = None, onNodeRemoved = False, observed = []\<rparr>"

definition ex_target :: target where
  "ex_target = \<lparr>target_name = ''web'', target_env = \<lparr>isLibrary = False\<rparr>\<rparr>"

definition ex_hashed :: asset_graph where
  "ex_hashed =
     \<lparr>heap = (\<lambda>_. \<lparr>node_id = ''@@root'', node_value = RootValue, usedSymbols = [],
                    correspondingRequest = None, complete = None, hasDeferred = None,
                    deferred = None\<rparr>)
        (1 := nodeFromDep ((ex_dep ''t'')\<lparr>dep_target := Some ex_target\<rparr>),
         2 := nodeFromAssetGroup group_filePath (ex_group ''g''),
         3 := nodeFromAsset ((ex_asset ''a'')\<lparr>outputHash := Some ''h1''\<rparr>)),
      nextRef = 4,
      nodes = [''@@root'' \<mapsto> 0, ''t'' \<mapsto> 1, ''g'' \<mapsto> 2, ''a'' \<mapsto> 3],
      edges = [(''@@root'', ''t''), (''t'', ''g''), (''g'', ''a'')],
      rootNodeId = Some ''@@root'', hash = None, onNodeRemoved = False, observed = []\<rparr>"

lemmas trav_defs = ex_cycle_def ex_hashed_def ex_target_def nodeFromDep_def nodeFromAsset_def
  nodeFromAssetGroup_def ex_asset_def ex_dep_def ex_group_def

lemmas trav_eval = traverse_def getRootNode_def dfs.simps outbound_def inbound_def node_key_def
  adjacent_def plain_visit_def descendants_def findAncestors_def traverseAncestors_def
  getIncomingDependencies_def

lemma ex_cycle_traverse: "traverse ex_cycle plain_visit (Some 0) () = Inr ([0, 1, 2, 3, 4, 5], ())"
  by (simp add: trav_defs trav_eval)

lemma ex_cycle_incoming:
  "getIncomingDependencies ex_cycle (ex_asset ''a'') = [ex_dep ''d2'', ex_dep ''d'']"
  by (simp add: trav_defs trav_eval)

theorem traversal_cycle_safe_witness:
  "traverse ex_cycle plain_visit (Some 0) () = Inr ([0, 1, 2, 3, 4, 5], ()) \<and>
   distinct [0, 1, 2, 3, 4, 5 :: nat] \<and>
   getIncomingDependencies ex_cycle (ex_asset ''a'') = [ex_dep ''d2'', ex_dep ''d'']"
  using traversal_cycle_safe[of "node_key ex_cycle" "outbound ex_cycle" plain_visit
      "[(0, None)]" "[]" "()" ex_cycle plain_visit "Some 0" "()" "[0, 1, 2, 3, 4, 5]" "()"]
    ex_cycle_traverse ex_cycle_incoming
  by simp

lemma ex_hashed_descendants: "descendants ex_hashed 0 = [0, 1, 2, 3]"
  by (simp add: trav_defs trav_eval)

theorem getHash_digest_witness:
  "getHash (\<lambda>s. ''md5:'' @ s) target_name ex_hashed =
     Inr (''md5:webh1'', ex_hashed\<lparr>hash := Some ''md5:webh1''\<rparr>)"
proof -
  have a: "hash ex_hashed = None" "getRootNode ex_hashed = Some 0"
    by (simp_all add: ex_hashed_def getRootNode_def)
  have b: "\<forall>n\<in>set (descendants ex_hashed 0). has_outputHash ex_hashed n"
    unfolding ex_hashed_descendants by (simp add: has_outputHash_def trav_defs)
  have c: "concat (map (update_chunk target_name ex_hashed) (descendants ex_hashed 0)) = ''webh1''"
    unfolding ex_hashed_descendants by (simp add: update_chunk_def trav_defs)
  show ?thesis
    using getHash_digest[OF a b, of "\<lambda>s. ''md5:'' @ s" target_name] by (simp add: c)
qed

lemma ex_hashed_getHash:
  "getHash (\<lambda>s. ''md5:'' @ s) target_name ex_hashed =
     Inr (''md5:webh1'', ex_hashed\<lparr>hash := Some ''md5:webh1''\<rparr>)"
  by (simp add: getHash_def hash_visit_def trav_defs trav_eval)

theorem getHash_cached_until_edit_witness:
  "getHash (\<lambda>s. ''md5:'' @ s) target_name ex_hashed =
     Inr (''md5:webh1'', ex_hashed\<lparr>hash := Some ''md5:webh1''\<rparr>) \<and>
   getHash (\<lambda>s. ''md5:'' @ s) target_name (ex_hashed\<lparr>hash := Some ''md5:webh1''\<rparr>) =
     Inr (''md5:webh1'', ex_hashed\<lparr>hash := Some ''md5:webh1''\<rparr>) \<and>
   hash (addNode (ex_hashed\<lparr>hash := Some ''md5:webh1''\<rparr>) 3) = None \<and>
   hash (removeNode (ex_hashed\<lparr>hash := Some ''md5:webh1''\<rparr>) 3) = None"
  using ex_hashed_getHash
    getHash_cached_until_edit[of "\<lambda>s. ''md5:'' @ s" target_name ex_hashed "''md5:webh1''"
      "ex_hashed\<lparr>hash := Some ''md5:webh1''\<rparr>" 3]
    getHash_cached_until_edit[of "\<lambda>s. ''md5:'' @ s" target_name
      "ex_hashed\<lparr>hash := Some ''md5:webh1''\<rparr>" "''md5:webh1''"
      "ex_hashed\<lparr>hash := Some ''md5:webh1''\<rparr>" 3]
  by blast

section \<open>Idempotent re-resolution\<close>




subsection \<open>Removal only removes\<close>

lemma remove_step_frame:
  assumes "remove_step g node = (g1, orphans)"
  shows "heap g1 = heap g" and "nextRef g1 = nextRef g"
    and "nodes g1 = (nodes g)(node_key g node := None)"
    and "edges g1 = filter (\<lambda>e. fst e \<noteq> node_key g node \<and> snd e \<noteq> node_key g node) (edges g)"
    and "\<forall>c\<in>set orphans. \<not> list_ex (\<lambda>e. snd e = node_key g c) (edges g1)"
  using assms by (auto simp: remove_step_def Let_def node_key_def)

lemma removeNodes_frame:
  "heap (removeNodes g todo) = heap g \<and> nextRef (removeNodes g todo) = nextRef g \<and>
   (\<forall>i r. nodes (removeNodes g todo) i = Some r \<longrightarrow> nodes g i = Some r) \<and>
   set (edges (removeNodes g todo)) \<subseteq> set (edges g)"
proof (induction g todo rule: removeNodes.induct)
  case (1 g)
  show ?case by (simp add: removeNodes.simps)
next
  case (2 g node todo)
  obtain g1 orphans where rs: "remove_step g node = (g1, orphans)"
    by (cases "remove_step g node")
  note f = remove_step_frame[OF rs]
  have eq: "removeNodes g (node # todo) = removeNodes g1 (orphans @ todo)"
    using rs by (simp add: removeNodes.simps)
  from 2[OF rs[symmetric]] have IH:
    "heap (removeNodes g1 (orphans @ todo)) = heap g1"
    "nextRef (removeNodes g1 (orphans @ todo)) = nextRef g1"
    "\<And>i r. nodes (removeNodes g1 (orphans @ todo)) i = Some r \<Longrightarrow> nodes g1 i = Some r"
    "set (edges (removeNodes g1 (orphans @ todo))) \<subseteq> set (edges g1)"
    by blast+
  have n: "nodes g i = Some r" if "nodes g1 i = Some r" for i r
    using that f(3) by (auto split: if_splits)
  have e: "set (edges g1) \<subseteq> set (edges g)" using f(4) by auto
  show ?case
    unfolding eq using IH(1,2) IH(3)[THEN n] IH(4) e f(1,2) by auto
qed



subsection \<open>The two phases of replaceNodesConnectedTo\<close>

lemma connect_child_heap [simp]:
  "heap (connect_child p g t) = heap g" "nextRef (connect_child p g t) = nextRef g"
  "node_key (connect_child p g t) = node_key g"
  by (auto simp: connect_child_def addNode_def Let_def node_key_def fun_eq_iff)

lemma connect_child_edges [simp]:
  "set (edges (connect_child p g t)) = insert (p, node_key g t) (set (edges g))"
  by (auto simp: connect_child_def addNode_def Let_def)

lemma connect_child_nodes:
  "nodes (connect_child p g t) =
     (if nodes g (node_key g t) = None then (nodes g)(node_key g t \<mapsto> t) else nodes g)"
  by (auto simp: connect_child_def addNode_def Let_def)

lemma connect_fold_heap [simp]:
  "heap (foldl (connect_child p) g ts) = heap g"
  "nextRef (foldl (connect_child p) g ts) = nextRef g"
  "node_key (foldl (connect_child p) g ts) = node_key g"
  by (induction ts arbitrary: g) simp_all

lemma connect_fold_edges [simp]:
  "set (edges (foldl (connect_child p) g ts)) = set (edges g) \<union> (\<lambda>t. (p, node_key g t)) ` set ts"
  by (induction ts arbitrary: g) auto


lemma connect_fold_new:
  "nodes (foldl (connect_child p) g ts) i = Some r \<Longrightarrow>
   nodes g i = Some r \<or> (i = node_key g r \<and> r \<in> set ts)"
proof (induction ts arbitrary: g)
  case Nil
  then show ?case by simp
next
  case (Cons t ts)
  from Cons.IH[of "connect_child p g t"] Cons.prems
  have "nodes (connect_child p g t) i = Some r \<or> (i = node_key g r \<and> r \<in> set ts)"
    by simp
  then show ?case
    by (auto simp: connect_child_nodes split: if_splits)
qed


lemma disconnect_child_frame:
  "heap (disconnect_child p g c) = heap g \<and> nextRef (disconnect_child p g c) = nextRef g \<and>
   (\<forall>i r. nodes (disconnect_child p g c) i = Some r \<longrightarrow> nodes g i = Some r) \<and>
   set (edges (disconnect_child p g c)) \<subseteq> set (edges g) - {(p, c)}"
proof -
  let ?g1 = "g\<lparr>edges := filter (\<lambda>e. e \<noteq> (p, c)) (edges g)\<rparr>"
  have a: "heap ?g1 = heap g" "nextRef ?g1 = nextRef g" "nodes ?g1 = nodes g"
    "set (edges ?g1) = set (edges g) - {(p, c)}"
    by auto
  show ?thesis
  proof (cases "nodes ?g1 c")
    case None
    then show ?thesis using a by (simp add: disconnect_child_def Let_def)
  next
    case (Some child)
    show ?thesis
    proof (cases "list_ex (\<lambda>e. snd e = c) (edges ?g1)")
      case True
      then show ?thesis using a Some by (simp add: disconnect_child_def Let_def)
    next
      case False
      then have eq: "disconnect_child p g c = removeNodes ?g1 [child]"
        using Some by (simp add: disconnect_child_def Let_def removeNode_def)
      show ?thesis
        unfolding eq using removeNodes_frame[of ?g1 "[child]"] a by auto
    qed
  qed
qed



definition ids_ok :: "asset_graph \<Rightarrow> bool" where
  "ids_ok g \<longleftrightarrow> (\<forall>i r. nodes g i = Some r \<longrightarrow> node_id (heap g r) = i)"

lemma disconnect_child_ids_ok: "ids_ok g \<Longrightarrow> ids_ok (disconnect_child p g c)"
  using disconnect_child_frame[of p g c] unfolding ids_ok_def by metis




subsection \<open>replaceNodesConnectedTo\<close>

text \<open>
  The former children that \<open>replaceNodesConnectedTo\<close> disconnects, named so that its two
  phases can be read apart (\<open>replace_unfold\<close>).
\<close>

definition childrenToRemove :: "asset_graph \<Rightarrow> ref \<Rightarrow> ref list \<Rightarrow> string list" where
  "childrenToRemove g fromNode toNodes =
     remdups (filter (\<lambda>c. c \<notin> set (map (node_key g) toNodes))
       (map snd (filter (\<lambda>e. fst e = node_key g fromNode) (edges g))))"

lemma replace_unfold:
  "replaceNodesConnectedTo g P ts =
     foldl (disconnect_child (node_key g P)) (foldl (connect_child (node_key g P)) g ts)
       (childrenToRemove g P ts)"
  by (simp add: replaceNodesConnectedTo_def childrenToRemove_def Let_def)




lemma connect_fold_ids_ok: "ids_ok g \<Longrightarrow> ids_ok (foldl (connect_child p) g ts)"
  unfolding ids_ok_def
  using connect_fold_new[of p g ts] by (fastforce simp: node_key_def)

lemma disconnect_fold_ids_ok: "ids_ok g \<Longrightarrow> ids_ok (foldl (disconnect_child p) g cs)"
  by (induction cs arbitrary: g) (simp_all add: disconnect_child_ids_ok)

lemma replace_ids_ok: "ids_ok g \<Longrightarrow> ids_ok (replaceNodesConnectedTo g P ts)"
  by (simp add: replace_unfold connect_fold_ids_ok disconnect_fold_ids_ok)








subsection \<open>Allocation and the request stamp\<close>



lemma set_correspondingRequest_frame [simp]:
  "nodes (set_correspondingRequest r req g) = nodes g"
  "edges (set_correspondingRequest r req g) = edges g"
  "hash (set_correspondingRequest r req g) = hash g"
  "rootNodeId (set_correspondingRequest r req g) = rootNodeId g"
  "observed (set_correspondingRequest r req g) = observed g"
  "onNodeRemoved (set_correspondingRequest r req g) = onNodeRemoved g"
  "nextRef (set_correspondingRequest r req g) = nextRef g"
  "node_key (set_correspondingRequest r req g) q = node_key g q"
  "ntype (heap (set_correspondingRequest r req g) q) = ntype (heap g q)"
  "correspondingRequest (heap (set_correspondingRequest r req g) r) = Some req"
  "node_value (heap (set_correspondingRequest r req g) q) = node_value (heap g q)"
  "node_id (heap (set_correspondingRequest r req g) q) = node_id (heap g q)"
  by (simp_all add: set_correspondingRequest_def node_key_def)

lemma set_correspondingRequest_key [simp]:
  "node_key (set_correspondingRequest r req g) = node_key g"
  by (rule ext) simp











subsection \<open>The resolvers with one wiring\<close>







subsection \<open>Examples\<close>



















end
